theory Spec2Isabelle
  imports Main
begin

section \<open>The syntax trees the scan reads\<close>

text \<open>
  \<^verbatim>\<open>lib/ast.go\<close> walks the tree that \<^verbatim>\<open>go/parser\<close> builds for a file and looks at
  two kinds of nodes only: the file itself and assignment statements. Inside an assignment
  it inspects call expressions, selector expressions, identifiers and basic literals.
  Every other kind of node (declarations, blocks, function literals, composite
  expressions, ...) is \<open>ast_Other\<close>, holding its children in the order \<^verbatim>\<open>ast.Walk\<close>
  visits them.

  A basic literal keeps its token kind and its \<^verbatim>\<open>Value\<close>, which is the literal's text as
  it stands in the source, delimiters included. The selector of a selector expression is
  an identifier by its Go type (\<^verbatim>\<open>Sel *ast.Ident\<close>), so only its name is kept.
\<close>

datatype Kind = token_INT | token_FLOAT | token_IMAG | token_CHAR | token_STRING

datatype Node =
    ast_Ident string
  | ast_BasicLit Kind string
  | ast_SelectorExpr Node string
  | ast_CallExpr Node "Node list"
  | ast_AssignStmt "Node list" "Node list"
  | ast_Other "Node list"

text \<open>The root of a parsed file: the package name and the children walked after it.\<close>

datatype File = ast_File string "Node list"

section \<open>The data model\<close>

record Group =
  Name :: string
  LocalPath :: string
  FullPath :: string

text \<open>
  A \<^verbatim>\<open>*Group\<close> is never written to after its creation, so a group pointer is modelled by
  the group's value; \<open>None\<close> is the nil pointer.
\<close>

record ReferencedAsset =
  Name :: string
  AssetPath :: string
  Group :: "Group option"

record ReferencedAssets =
  Caller :: string
  PackageName :: string
  BaseDir :: string
  Assets :: "ReferencedAsset list"
  Groups :: "Group list"

record CallStmt =
  Obj :: string
  Method :: string
  Path :: string

record AssignStmt =
  LHS :: string
  RHS :: CallStmt

section \<open>The matchers\<close>

text \<open>
  \<^verbatim>\<open>strings.Replace(s, old, new, -1)\<close> for a non-empty \<open>old\<close>: every non-overlapping
  occurrence of \<open>old\<close>, found from the left, is replaced by \<open>new\<close>.
\<close>

function strings_Replace :: "string \<Rightarrow> string \<Rightarrow> string \<Rightarrow> string" where
  "strings_Replace [] old new = []"
| "strings_Replace (c # cs) old new =
     (if old \<noteq> [] \<and> take (length old) (c # cs) = old
      then new @ strings_Replace (drop (length old) (c # cs)) old new
      else c # strings_Replace cs old new)"
  by pat_completeness auto
termination
  by (relation "measure (\<lambda>(s, old, new). length s)") auto

text \<open>The double quote character, the \<^verbatim>\<open>"\""\<close> of the source.\<close>

definition dquote :: string where
  "dquote = [CHR 0x22]"

text \<open>
  \<^verbatim>\<open>ParseCallExpr\<close> takes the call's \<^verbatim>\<open>Fun\<close> and \<^verbatim>\<open>Args\<close>. A \<^verbatim>\<open>Fun\<close> that is no
  selector expression falls through the type switch and the nil result is returned.
\<close>

definition ParseCallExpr :: "Node \<Rightarrow> Node list \<Rightarrow> CallStmt option" where
  "ParseCallExpr callFun callArgs =
     (if length callArgs \<noteq> 1 then None
      else case callFun of
        ast_SelectorExpr X Sel \<Rightarrow>
          (case X of
             ast_Ident obj \<Rightarrow>
               (case hd callArgs of
                  ast_BasicLit kind val \<Rightarrow>
                    Some \<lparr>Obj = obj, Method = Sel, Path = strings_Replace val dquote []\<rparr>
                | _ \<Rightarrow> None)
           | _ \<Rightarrow> None)
      | _ \<Rightarrow> None)"

text \<open>
  \<^verbatim>\<open>ParseAssignment\<close> takes the statement's \<^verbatim>\<open>Lhs\<close> and \<^verbatim>\<open>Rhs\<close>. The left-hand
  side only decides what \<open>lhs\<close> is: the identifier's name, or the empty string the
  variable starts with.
\<close>

definition ParseAssignment :: "Node list \<Rightarrow> Node list \<Rightarrow> AssignStmt option" where
  "ParseAssignment Lhs Rhs =
     (let lhs = (if length Lhs = 1
                 then (case hd Lhs of ast_Ident name \<Rightarrow> name | _ \<Rightarrow> [])
                 else [])
      in if length Rhs = 1
         then (case hd Rhs of
                 ast_CallExpr callFun callArgs \<Rightarrow>
                   (case ParseCallExpr callFun callArgs of
                      Some call \<Rightarrow> Some \<lparr>LHS = lhs, RHS = call\<rparr>
                    | None \<Rightarrow> None)
               | _ \<Rightarrow> None)
         else None)"

section \<open>The scan\<close>

text \<open>
  What \<^verbatim>\<open>GetReferencedAssets\<close> takes from outside: the parser and three functions of
  \<^verbatim>\<open>path/filepath\<close>. They are parameters of the model. \<^verbatim>\<open>filepath.Abs\<close> fails when
  the working directory cannot be found.
\<close>

datatype error = Error string

record env =
  parser_ParseFile :: "string \<Rightarrow> error + File"
  filepath_Dir :: "string \<Rightarrow> string"
  filepath_Join :: "string \<Rightarrow> string \<Rightarrow> string"
  filepath_Abs :: "string \<Rightarrow> error + string"

text \<open>
  The bundles are heap objects: \<^verbatim>\<open>assetMap\<close> and \<^verbatim>\<open>result\<close> hold pointers to them, and
  the walk of a file writes through the pointer \<^verbatim>\<open>thisAssetBundle\<close>. The model keeps them
  in a store \<open>heap\<close> from addresses to bundles; \<open>free\<close> is the next address to allocate.
  \<open>groups\<close> is the scan-wide table of groups, and \<open>err\<close> the variable \<^verbatim>\<open>err\<close> of the
  current iteration, which the closure passed to \<^verbatim>\<open>ast.Inspect\<close> captures.
\<close>

record scan =
  heap :: "nat \<Rightarrow> ReferencedAssets"
  free :: nat
  result :: "nat list"
  assetMap :: "string \<Rightarrow> nat option"
  groups :: "string \<Rightarrow> Group option"
  err :: "error option"

fun HasAsset_range :: "ReferencedAsset list \<Rightarrow> string \<Rightarrow> bool" where
  "HasAsset_range [] name = False"
| "HasAsset_range (asset # rest) name =
     (if ReferencedAsset.Name asset = name then True else HasAsset_range rest name)"

definition HasAsset :: "ReferencedAssets \<Rightarrow> string \<Rightarrow> bool" where
  "HasAsset r name = HasAsset_range (Assets r) name"

text \<open>\<^verbatim>\<open>b.Assets = append(b.Assets, newAsset)\<close> and \<^verbatim>\<open>b.Groups = append(b.Groups, g)\<close>
  through a bundle pointer \<open>b\<close>.\<close>

definition append_Assets :: "nat \<Rightarrow> ReferencedAsset \<Rightarrow> scan \<Rightarrow> scan" where
  "append_Assets b newAsset s =
     s\<lparr>heap := (heap s)(b := (heap s b)\<lparr>Assets := Assets (heap s b) @ [newAsset]\<rparr>)\<rparr>"

definition append_Groups :: "nat \<Rightarrow> Group \<Rightarrow> scan \<Rightarrow> scan" where
  "append_Groups b thisGroup s =
     s\<lparr>heap := (heap s)(b := (heap s b)\<lparr>Groups := Groups (heap s b) @ [thisGroup]\<rparr>)\<rparr>"

text \<open>
  The closure passed to \<^verbatim>\<open>ast.Inspect\<close>, for every node below the root. It returns
  whether the walk descends into the node's children, and the state. The
  \<^verbatim>\<open>fullPath, err := filepath.Abs(...)\<close> of the \<^verbatim>\<open>"Group"\<close> case declares a new \<^verbatim>\<open>err\<close>
  in the scope of that case, so only the default case writes the captured one.
\<close>

definition inspect_fn :: "env \<Rightarrow> string \<Rightarrow> nat \<Rightarrow> Node \<Rightarrow> scan \<Rightarrow> bool \<times> scan" where
  "inspect_fn e filename thisAssetBundle node s =
     (case node of
        ast_AssignStmt Lhs Rhs \<Rightarrow>
          (case ParseAssignment Lhs Rhs of
             None \<Rightarrow> (True, s)
           | Some thisAsset \<Rightarrow>
               (let objName = Obj (RHS thisAsset);
                    method = Method (RHS thisAsset);
                    path = Path (RHS thisAsset)
                in if objName = ''mewn''
                   then (if method = ''Group''
                         then (let baseDir = filepath_Dir e filename
                               in case filepath_Abs e (filepath_Join e baseDir path) of
                                    Inl abs_err \<Rightarrow> (False, s)
                                  | Inr fullPath \<Rightarrow>
                                      (let thisGroup = \<lparr>Group.Name = LHS thisAsset,
                                                        LocalPath = path, FullPath = fullPath\<rparr>
                                       in (True, (append_Groups thisAssetBundle thisGroup s)
                                                   \<lparr>groups := (groups s)(LHS thisAsset \<mapsto> thisGroup)\<rparr>)))
                         else if method = ''String'' \<or> method = ''MustString'' \<or>
                                 method = ''Bytes'' \<or> method = ''MustBytes''
                         then (True, append_Assets thisAssetBundle
                                       \<lparr>ReferencedAsset.Name = path, AssetPath = path, Group = None\<rparr> s)
                         else (False, s\<lparr>err := Some (Error (''unknown call to mewn.'' @ method))\<rparr>))
                   else (case groups s objName of
                           Some grp \<Rightarrow>
                             (True, append_Assets thisAssetBundle
                                      \<lparr>ReferencedAsset.Name = path, AssetPath = path, Group = Some grp\<rparr> s)
                         | None \<Rightarrow> (True, s))))
      | _ \<Rightarrow> (True, s))"

text \<open>
  \<^verbatim>\<open>ast.Inspect\<close>: a depth-first walk that calls \<open>f\<close> on a node and, when \<open>f\<close> returns
  true, on the node's children in source order. When \<open>f\<close> returns false the children of
  that node are skipped and the walk goes on with the node's next sibling. (The call
  \<^verbatim>\<open>f(nil)\<close> that closes a node is left out: the closure above has no case for it.)
\<close>

fun Inspect :: "(Node \<Rightarrow> 's \<Rightarrow> bool \<times> 's) \<Rightarrow> Node \<Rightarrow> 's \<Rightarrow> 's"
  and Inspect_list :: "(Node \<Rightarrow> 's \<Rightarrow> bool \<times> 's) \<Rightarrow> Node list \<Rightarrow> 's \<Rightarrow> 's" where
  "Inspect f (ast_Ident name) s = snd (f (ast_Ident name) s)"
| "Inspect f (ast_BasicLit kind val) s = snd (f (ast_BasicLit kind val) s)"
| "Inspect f (ast_SelectorExpr X Sel) s =
     (case f (ast_SelectorExpr X Sel) s of
        (True, s') \<Rightarrow> snd (f (ast_Ident Sel) (Inspect f X s'))
      | (False, s') \<Rightarrow> s')"
| "Inspect f (ast_CallExpr callFun callArgs) s =
     (case f (ast_CallExpr callFun callArgs) s of
        (True, s') \<Rightarrow> Inspect_list f callArgs (Inspect f callFun s')
      | (False, s') \<Rightarrow> s')"
| "Inspect f (ast_AssignStmt Lhs Rhs) s =
     (case f (ast_AssignStmt Lhs Rhs) s of
        (True, s') \<Rightarrow> Inspect_list f Rhs (Inspect_list f Lhs s')
      | (False, s') \<Rightarrow> s')"
| "Inspect f (ast_Other children) s =
     (case f (ast_Other children) s of
        (True, s') \<Rightarrow> Inspect_list f children s'
      | (False, s') \<Rightarrow> s')"
| "Inspect_list f [] s = s"
| "Inspect_list f (n # ns) s = Inspect_list f ns (Inspect f n s)"

text \<open>
  The walk of one file. The root is visited first (\<^verbatim>\<open>case *ast.File\<close>: the bundle's
  \<^verbatim>\<open>PackageName\<close> is set to the file's package name), then its children.
\<close>

fun Inspect_File :: "env \<Rightarrow> string \<Rightarrow> nat \<Rightarrow> File \<Rightarrow> scan \<Rightarrow> scan" where
  "Inspect_File e filename thisAssetBundle (ast_File packageName children) s =
     Inspect_list (inspect_fn e filename thisAssetBundle) children
       (s\<lparr>heap := (heap s)(thisAssetBundle :=
                    (heap s thisAssetBundle)\<lparr>PackageName := packageName\<rparr>)\<rparr>)"

text \<open>Lines 66 to 71: the bundle of the file's directory, allocated when the directory is
  met for the first time.\<close>

definition bundle_of_dir :: "string \<Rightarrow> string \<Rightarrow> scan \<Rightarrow> nat \<times> scan" where
  "bundle_of_dir filename baseDir s =
     (case assetMap s baseDir of
        Some thisAssetBundle \<Rightarrow> (thisAssetBundle, s)
      | None \<Rightarrow>
          (free s,
           s\<lparr>heap := (heap s)(free s := \<lparr>Caller = filename, PackageName = [], BaseDir = baseDir,
                                         Assets = [], Groups = []\<rparr>),
             free := Suc (free s),
             assetMap := (assetMap s)(baseDir \<mapsto> free s)\<rparr>))"

text \<open>
  The body of the loop for a file that parsed (lines 63 to 114): \<^verbatim>\<open>err\<close> is nil after
  the check of line 59, the bundle of the directory is looked up or made, the tree is
  walked, and the bundle pointer is appended to \<^verbatim>\<open>result\<close>.
\<close>

definition file_step :: "env \<Rightarrow> string \<Rightarrow> File \<Rightarrow> scan \<Rightarrow> scan" where
  "file_step e filename node s =
     (case bundle_of_dir filename (filepath_Dir e filename) (s\<lparr>err := None\<rparr>) of
        (thisAssetBundle, s1) \<Rightarrow>
          (let s2 = Inspect_File e filename thisAssetBundle node s1
           in s2\<lparr>result := result s2 @ [thisAssetBundle]\<rparr>))"

text \<open>The loop over the file names. A parse error returns at once; nothing else does.\<close>

fun files_loop :: "env \<Rightarrow> string list \<Rightarrow> scan \<Rightarrow> error + scan" where
  "files_loop e [] s = Inr s"
| "files_loop e (filename # filenames) s =
     (case parser_ParseFile e filename of
        Inl parse_err \<Rightarrow> Inl parse_err
      | Inr node \<Rightarrow> files_loop e filenames (file_step e filename node s))"

definition nil_bundle :: ReferencedAssets where
  "nil_bundle = \<lparr>Caller = [], PackageName = [], BaseDir = [], Assets = [], Groups = []\<rparr>"

definition scan_init :: scan where
  "scan_init = \<lparr>heap = (\<lambda>a. nil_bundle), free = 0, result = [],
                assetMap = Map.empty, groups = Map.empty, err = None\<rparr>"

text \<open>
  \<^verbatim>\<open>GetReferencedAssets\<close> returns \<^verbatim>\<open>nil, err\<close> or \<^verbatim>\<open>result, nil\<close>. The result is a slice
  of pointers, so the model returns it with the store the pointers point into;
  \<open>bundles\<close> reads the bundles off, as a caller ranging over the slice does.
\<close>

definition GetReferencedAssets :: "env \<Rightarrow> string list \<Rightarrow> error + (nat list \<times> (nat \<Rightarrow> ReferencedAssets))" where
  "GetReferencedAssets e filenames =
     (case files_loop e filenames scan_init of
        Inl parse_err \<Rightarrow> Inl parse_err
      | Inr s \<Rightarrow> Inr (result s, heap s))"

definition bundles :: "nat list \<times> (nat \<Rightarrow> ReferencedAssets) \<Rightarrow> ReferencedAssets list" where
  "bundles r = map (snd r) (fst r)"

section \<open>Notions used to state the properties\<close>

text \<open>
  Everything a walk can do to the state, in one update: it appends assets and groups to
  the bundle \<open>b\<close>, enters the new groups into the table in the order of their
  declaration, and leaves some value in \<open>err\<close>.
\<close>

definition effects :: "nat \<Rightarrow> ReferencedAsset list \<Rightarrow> Group list \<Rightarrow> error option \<Rightarrow> scan \<Rightarrow> scan" where
  "effects b newAssets newGroups ev s =
     s\<lparr>heap := (heap s)(b := (heap s b)\<lparr>Assets := Assets (heap s b) @ newAssets,
                                         Groups := Groups (heap s b) @ newGroups\<rparr>),
       groups := fold (\<lambda>G tbl. tbl(Group.Name G \<mapsto> G)) newGroups (groups s),
       err := ev\<rparr>"

text \<open>
  The scan as a trace. What the closure does for a matched assignment depends on the
  state through the table of groups only, and whether it lets the walk descend does not
  depend on the state at all. So the statements a walk processes can be listed
  beforehand, and the result of a scan can be read off that list.

  \<open>declares_group\<close> is the group a matched assignment registers: it is a call of
  \<^verbatim>\<open>mewn.Group\<close> whose path resolves. \<open>declares_asset\<close> is the asset a matched
  assignment adds when the table of groups is \<open>tbl\<close>: a direct asset, or an asset of the
  group the receiver is registered for. \<open>descends\<close> is the closure's return value.
\<close>

definition declares_group :: "env \<Rightarrow> string \<Rightarrow> AssignStmt \<Rightarrow> Group option" where
  "declares_group e filename t =
     (if Obj (RHS t) = ''mewn'' \<and> Method (RHS t) = ''Group''
      then (case filepath_Abs e (filepath_Join e (filepath_Dir e filename) (Path (RHS t))) of
              Inr fullPath \<Rightarrow>
                Some \<lparr>Group.Name = LHS t, LocalPath = Path (RHS t), FullPath = fullPath\<rparr>
            | Inl abs_err \<Rightarrow> None)
      else None)"

definition declares_asset :: "(string \<Rightarrow> Group option) \<Rightarrow> AssignStmt \<Rightarrow> ReferencedAsset option" where
  "declares_asset tbl t =
     (if Obj (RHS t) = ''mewn''
      then (if Method (RHS t) \<in> {''String'', ''MustString'', ''Bytes'', ''MustBytes''}
            then Some \<lparr>ReferencedAsset.Name = Path (RHS t), AssetPath = Path (RHS t), Group = None\<rparr>
            else None)
      else (case tbl (Obj (RHS t)) of
              Some G \<Rightarrow>
                Some \<lparr>ReferencedAsset.Name = Path (RHS t), AssetPath = Path (RHS t), Group = Some G\<rparr>
            | None \<Rightarrow> None))"

definition descends :: "env \<Rightarrow> string \<Rightarrow> AssignStmt \<Rightarrow> bool" where
  "descends e filename t =
     (if Obj (RHS t) = ''mewn''
      then (if Method (RHS t) = ''Group'' then declares_group e filename t \<noteq> None
            else Method (RHS t) \<in> {''String'', ''MustString'', ''Bytes'', ''MustBytes''})
      else True)"

text \<open>
  The matched assignments the walk of a node processes, in processing order. The
  children of an assignment for which the closure returns false are never visited.
\<close>

fun visited :: "env \<Rightarrow> string \<Rightarrow> Node \<Rightarrow> AssignStmt list"
  and visited_list :: "env \<Rightarrow> string \<Rightarrow> Node list \<Rightarrow> AssignStmt list" where
  "visited e filename (ast_Ident name) = []"
| "visited e filename (ast_BasicLit kind val) = []"
| "visited e filename (ast_SelectorExpr X Sel) = visited e filename X"
| "visited e filename (ast_CallExpr callFun callArgs) =
     visited e filename callFun @ visited_list e filename callArgs"
| "visited e filename (ast_AssignStmt Lhs Rhs) =
     (case ParseAssignment Lhs Rhs of
        None \<Rightarrow> visited_list e filename Lhs @ visited_list e filename Rhs
      | Some t \<Rightarrow>
          t # (if descends e filename t
               then visited_list e filename Lhs @ visited_list e filename Rhs
               else []))"
| "visited e filename (ast_Other children) = visited_list e filename children"
| "visited_list e filename [] = []"
| "visited_list e filename (n # ns) = visited e filename n @ visited_list e filename ns"

text \<open>The matched assignments of a file, and of a list of files, each with its file.\<close>

definition file_statements :: "env \<Rightarrow> string \<Rightarrow> AssignStmt list" where
  "file_statements e filename =
     (case parser_ParseFile e filename of
        Inr (ast_File packageName children) \<Rightarrow> visited_list e filename children
      | Inl parse_err \<Rightarrow> [])"

definition scan_trace :: "env \<Rightarrow> string list \<Rightarrow> (string \<times> AssignStmt) list" where
  "scan_trace e filenames =
     concat (map (\<lambda>filename. map (Pair filename) (file_statements e filename)) filenames)"

text \<open>
  The table of groups after a trace, the assets a trace adds to the bundle of the
  directory \<open>d\<close>, and the groups it adds to it. The table is threaded through the whole
  trace, across files.
\<close>

fun trace_table :: "env \<Rightarrow> (string \<times> AssignStmt) list \<Rightarrow> (string \<Rightarrow> Group option) \<Rightarrow> (string \<Rightarrow> Group option)" where
  "trace_table e [] tbl = tbl"
| "trace_table e ((filename, t) # tr) tbl =
     trace_table e tr (case declares_group e filename t of
                         Some G \<Rightarrow> tbl(LHS t \<mapsto> G)
                       | None \<Rightarrow> tbl)"

fun trace_assets :: "env \<Rightarrow> (string \<times> AssignStmt) list \<Rightarrow> (string \<Rightarrow> Group option) \<Rightarrow> string \<Rightarrow> ReferencedAsset list" where
  "trace_assets e [] tbl d = []"
| "trace_assets e ((filename, t) # tr) tbl d =
     (if filepath_Dir e filename = d
      then (case declares_asset tbl t of Some asset \<Rightarrow> [asset] | None \<Rightarrow> [])
      else []) @
     trace_assets e tr (trace_table e [(filename, t)] tbl) d"

fun trace_groups :: "env \<Rightarrow> (string \<times> AssignStmt) list \<Rightarrow> string \<Rightarrow> Group list" where
  "trace_groups e [] d = []"
| "trace_groups e ((filename, t) # tr) d =
     (if filepath_Dir e filename = d
      then (case declares_group e filename t of Some G \<Rightarrow> [G] | None \<Rightarrow> [])
      else []) @
     trace_groups e tr d"

text \<open>What the closure does to the state for a matched assignment.\<close>

definition stmt_effect :: "env \<Rightarrow> string \<Rightarrow> nat \<Rightarrow> AssignStmt \<Rightarrow> scan \<Rightarrow> scan" where
  "stmt_effect e filename b t s =
     effects b
       (case declares_asset (groups s) t of Some asset \<Rightarrow> [asset] | None \<Rightarrow> [])
       (case declares_group e filename t of Some G \<Rightarrow> [G] | None \<Rightarrow> [])
       (if Obj (RHS t) = ''mewn'' \<and>
           Method (RHS t) \<notin> {''Group'', ''String'', ''MustString'', ''Bytes'', ''MustBytes''}
        then Some (Error (''unknown call to mewn.'' @ Method (RHS t)))
        else err s)
       s"


text \<open>The package name in the tree the parser returns for a file.\<close>

definition package_name :: "env \<Rightarrow> string \<Rightarrow> string" where
  "package_name e filename =
     (case parser_ParseFile e filename of Inr (ast_File p children) \<Rightarrow> p | Inl x \<Rightarrow> [])"

text \<open>
  The registry is well formed when every directory it knows points to an allocated bundle
  of that directory.
\<close>

definition registry_ok :: "scan \<Rightarrow> bool" where
  "registry_ok s = (\<forall>d a. assetMap s d = Some a \<longrightarrow> a < free s \<and> BaseDir (heap s a) = d)"

section \<open>Example programs\<close>

text \<open>
  A concrete environment to run the scan in. The parser knows the files of a table and
  reports a syntax error for every other name; the directory of a name is what stands
  before its last slash; \<^verbatim>\<open>filepath.Abs\<close> returns an absolute path as it is, prefixes
  the working directory \<^verbatim>\<open>/src\<close> to a relative one when there is a working directory, and
  fails for a relative one when there is none.
\<close>

definition example_Dir :: "string \<Rightarrow> string" where
  "example_Dir f =
     (if CHR ''/'' \<in> set f then rev (tl (dropWhile (\<lambda>c. c \<noteq> CHR ''/'') (rev f))) else ''.'')"

definition example_env :: "bool \<Rightarrow> (string \<times> File) list \<Rightarrow> env" where
  "example_env cwd files =
     \<lparr>parser_ParseFile =
        (\<lambda>f. case map_of files f of
                Some node \<Rightarrow> Inr node
              | None \<Rightarrow> Inl (Error (f @ '': syntax error''))),
      filepath_Dir = example_Dir,
      filepath_Join = (\<lambda>d p. d @ ''/'' @ p),
      filepath_Abs = (\<lambda>p. if take 1 p = ''/'' then Inr p
                          else if cwd then Inr (''/src/'' @ p)
                          else Inl (Error ''getwd''))\<rparr>"

text \<open>The statement \<^verbatim>\<open>lhs := obj.method("path")\<close>, and a function whose body is a list
  of statements.\<close>

definition assign_call :: "string \<Rightarrow> string \<Rightarrow> string \<Rightarrow> string \<Rightarrow> Node" where
  "assign_call lhs obj method path =
     ast_AssignStmt [ast_Ident lhs]
       [ast_CallExpr (ast_SelectorExpr (ast_Ident obj) method)
          [ast_BasicLit token_STRING (CHR 0x22 # path @ [CHR 0x22])]]"

definition func_decl :: "string \<Rightarrow> Node list \<Rightarrow> Node" where
  "func_decl name stmts = ast_Other [ast_Ident name, ast_Other [], ast_Other stmts]"

text \<open>
  Six files for a scan with a working directory. \<^verbatim>\<open>a/x.go\<close> declares the asset \<^verbatim>\<open>x.txt\<close> twice; \<^verbatim>\<open>a/y.go\<close>, in the same
  directory but of package \<^verbatim>\<open>main_test\<close>, declares a group and uses it; \<^verbatim>\<open>b/z.go\<close> uses
  the group before and after declaring it again, and calls \<^verbatim>\<open>mewn.Unknown\<close> in between;
  \<^verbatim>\<open>c/w.go\<close> uses a group that is declared after its use; \<^verbatim>\<open>d/bad.go\<close> holds the
  single statement \<^verbatim>\<open>x := mewn.Unknown("x")\<close>; \<^verbatim>\<open>e/p.go\<close> declares a group between two
  direct assets.

  Three more, for a scan without a working directory. \<^verbatim>\<open>/abs/q.go\<close> has an absolute
  name, so the path of its group \<open>g\<close> resolves. \<^verbatim>\<open>r/late.go\<close> declares \<open>g\<close> again and uses
  it. \<^verbatim>\<open>n/nest.go\<close> holds the statement
  \<^verbatim>\<open>m[func() { v := g.String("inner.txt") }()] = mewn.Group("second")\<close>, a group
  declaration with a call on \<open>g\<close> inside its left-hand side.
\<close>

definition example_files :: "(string \<times> File) list" where
  "example_files =
     [(''a/x.go'', ast_File ''main''
         [func_decl ''main''
            [assign_call ''s'' ''mewn'' ''String'' ''x.txt'',
             assign_call ''t'' ''mewn'' ''MustString'' ''x.txt'']]),
      (''a/y.go'', ast_File ''main_test''
         [func_decl ''init''
            [assign_call ''g'' ''mewn'' ''Group'' ''assets'',
             assign_call ''u'' ''g'' ''String'' ''y.txt'']]),
      (''b/z.go'', ast_File ''b''
         [func_decl ''f''
            [assign_call ''v'' ''g'' ''Bytes'' ''1.bin'',
             assign_call ''bad'' ''mewn'' ''Unknown'' ''x'',
             assign_call ''g'' ''mewn'' ''Group'' ''static'',
             assign_call ''v'' ''g'' ''Bytes'' ''2.bin'']]),
      (''c/w.go'', ast_File ''c''
         [func_decl ''f''
            [assign_call ''v'' ''h'' ''String'' ''early.txt'',
             assign_call ''h'' ''mewn'' ''Group'' ''late'']]),
      (''d/bad.go'', ast_File ''d''
         [func_decl ''f''
            [assign_call ''x'' ''mewn'' ''Unknown'' ''x'']]),
      (''e/p.go'', ast_File ''e''
         [func_decl ''f''
            [assign_call ''k'' ''mewn'' ''Bytes'' ''before.bin'',
             assign_call ''g'' ''mewn'' ''Group'' ''assets'',
             assign_call ''s'' ''mewn'' ''String'' ''after.txt'']]),
      (''/abs/q.go'', ast_File ''q''
         [func_decl ''f''
            [assign_call ''g'' ''mewn'' ''Group'' ''first'']]),
      (''r/late.go'', ast_File ''r''
         [func_decl ''f''
            [assign_call ''g'' ''mewn'' ''Group'' ''second'',
             assign_call ''v'' ''g'' ''String'' ''z.txt'']]),
      (''n/nest.go'', ast_File ''n''
         [func_decl ''f''
            [ast_AssignStmt
               [ast_Other
                  [ast_Ident ''m'',
                   ast_CallExpr
                     (ast_Other
                        [ast_Other [],
                         ast_Other [assign_call ''v'' ''g'' ''String'' ''inner.txt'']])
                     []]]
               [ast_CallExpr (ast_SelectorExpr (ast_Ident ''mewn'') ''Group'')
                  [ast_BasicLit token_STRING (CHR 0x22 # ''second'' @ [CHR 0x22])]]]])]"

section \<open>Properties of the matchers\<close>

lemma strings_Replace_single:
  "strings_Replace s [q] [] = filter (\<lambda>c. c \<noteq> q) s"
  by (induction s) auto

lemma ParseCallExpr_Some_iff:
  "(ParseCallExpr callFun callArgs = Some c) =
   (\<exists>obj sel kind val.
      callFun = ast_SelectorExpr (ast_Ident obj) sel \<and> callArgs = [ast_BasicLit kind val] \<and>
      c = \<lparr>Obj = obj, Method = sel, Path = strings_Replace val dquote []\<rparr>)"
proof (cases "length callArgs = 1")
  case False
  then show ?thesis by (auto simp: ParseCallExpr_def)
next
  case True
  then obtain arg where arg: "callArgs = [arg]" by (cases callArgs) auto
  show ?thesis
    unfolding ParseCallExpr_def arg
    by (auto split: Node.splits)
qed

lemma ParseAssignment_Some_iff:
  "(ParseAssignment Lhs Rhs = Some r) =
   (\<exists>callFun callArgs call.
      Rhs = [ast_CallExpr callFun callArgs] \<and> ParseCallExpr callFun callArgs = Some call \<and>
      r = \<lparr>LHS = (case Lhs of [ast_Ident name] \<Rightarrow> name | _ \<Rightarrow> []), RHS = call\<rparr>)"
proof -
  have lhs: "(if length Lhs = 1 then (case hd Lhs of ast_Ident name \<Rightarrow> name | _ \<Rightarrow> []) else [])
             = (case Lhs of [ast_Ident name] \<Rightarrow> name | _ \<Rightarrow> [])"
    by (cases Lhs) (auto split: Node.splits list.splits)
  show ?thesis
  proof (cases "length Rhs = 1")
    case False
    then show ?thesis by (auto simp: ParseAssignment_def)
  next
    case True
    then obtain x where x: "Rhs = [x]" by (cases Rhs) auto
    show ?thesis
      unfolding ParseAssignment_def lhs x
      by (cases x) (auto split: option.splits)
  qed
qed

subsection \<open>The call-pattern matcher\<close>

text \<open>
  C7 (as the code has it). \<open>ParseCallExpr\<close> returns a triple exactly when the call target
  is \<open>receiver.method\<close> with an identifier as receiver and the single argument is a basic
  literal of any kind (integer, float, imaginary, character or string). The path is the
  literal's source text with every double quote character removed, wherever it stands;
  no other delimiter is stripped. A call whose single argument is no basic literal yields
  no match.
\<close>

theorem ParseCallExpr_matches_any_literal:
  "(ParseCallExpr callFun callArgs = Some c) =
   (\<exists>obj sel kind val.
      callFun = ast_SelectorExpr (ast_Ident obj) sel \<and> callArgs = [ast_BasicLit kind val] \<and>
      c = \<lparr>Obj = obj, Method = sel, Path = filter (\<lambda>ch. ch \<noteq> CHR 0x22) val\<rparr>)"
  by (simp add: ParseCallExpr_Some_iff dquote_def strings_Replace_single)

text \<open>
  C7 as the spec words it fails: \<^verbatim>\<open>mewn.String(42)\<close> matches although its argument is an
  integer literal; the literal \<^verbatim>\<open>"a\"b"\<close> loses its inner quote too, leaving the
  backslash; and the raw string literal \<^verbatim>\<open>`x.txt`\<close> keeps its back quotes.
\<close>

theorem ParseCallExpr_string_literal_counterexample:
  "ParseCallExpr (ast_SelectorExpr (ast_Ident ''mewn'') ''String'') [ast_BasicLit token_INT ''42'']
     = Some \<lparr>Obj = ''mewn'', Method = ''String'', Path = ''42''\<rparr> \<and>
   ParseCallExpr (ast_SelectorExpr (ast_Ident ''mewn'') ''String'')
       [ast_BasicLit token_STRING [CHR 0x22, CHR ''a'', CHR 0x5C, CHR 0x22, CHR ''b'', CHR 0x22]]
     = Some \<lparr>Obj = ''mewn'', Method = ''String'', Path = [CHR ''a'', CHR 0x5C, CHR ''b'']\<rparr> \<and>
   ParseCallExpr (ast_SelectorExpr (ast_Ident ''mewn'') ''String'')
       [ast_BasicLit token_STRING (CHR 0x60 # ''x.txt'' @ [CHR 0x60])]
     = Some \<lparr>Obj = ''mewn'', Method = ''String'', Path = CHR 0x60 # ''x.txt'' @ [CHR 0x60]\<rparr>"
  by (simp add: ParseCallExpr_def dquote_def)

subsection \<open>The assignment matcher\<close>

text \<open>
  C5 (as the code has it). \<open>ParseAssignment\<close> succeeds exactly when the statement has
  exactly one right-hand expression, that expression is a call expression, and
  \<open>ParseCallExpr\<close> matches it. The left-hand side never prevents a match: \<open>LHS\<close> is the
  identifier's name when the left-hand side is exactly one identifier, and the empty
  string otherwise.
\<close>

theorem ParseAssignment_depends_on_rhs:
  "(ParseAssignment Lhs Rhs = Some r) =
   (\<exists>callFun callArgs call.
      Rhs = [ast_CallExpr callFun callArgs] \<and> ParseCallExpr callFun callArgs = Some call \<and>
      r = \<lparr>LHS = (case Lhs of [ast_Ident name] \<Rightarrow> name | _ \<Rightarrow> []), RHS = call\<rparr>)"
  by (rule ParseAssignment_Some_iff)

text \<open>
  C5 as the spec words it fails: the two-target assignment \<^verbatim>\<open>a, b = mewn.String("x")\<close>
  and the assignment to a field \<^verbatim>\<open>s.f = mewn.String("x")\<close> both match, with an empty
  \<open>LHS\<close>.
\<close>

theorem ParseAssignment_lhs_counterexample:
  "ParseAssignment [ast_Ident ''a'', ast_Ident ''b'']
       [ast_CallExpr (ast_SelectorExpr (ast_Ident ''mewn'') ''String'')
          [ast_BasicLit token_STRING (CHR 0x22 # ''x'' @ [CHR 0x22])]]
     = Some \<lparr>LHS = [], RHS = \<lparr>Obj = ''mewn'', Method = ''String'', Path = ''x''\<rparr>\<rparr> \<and>
   ParseAssignment [ast_SelectorExpr (ast_Ident ''s'') ''f'']
       [ast_CallExpr (ast_SelectorExpr (ast_Ident ''mewn'') ''String'')
          [ast_BasicLit token_STRING (CHR 0x22 # ''x'' @ [CHR 0x22])]]
     = Some \<lparr>LHS = [], RHS = \<lparr>Obj = ''mewn'', Method = ''String'', Path = ''x''\<rparr>\<rparr>"
  by (simp add: ParseAssignment_def ParseCallExpr_def dquote_def)


section \<open>What a walk does to the state\<close>

lemma effects_id: "effects b [] [] (err s) s = s"
  by (simp add: effects_def)

lemma effects_comp:
  "effects b as2 gs2 ev2 (effects b as1 gs1 ev1 s) = effects b (as1 @ as2) (gs1 @ gs2) ev2 s"
  by (simp add: effects_def)

lemma Assets_effects: "Assets (heap (effects b as gs ev s) b) = Assets (heap s b) @ as"
  by (simp add: effects_def)

lemma Groups_effects: "Groups (heap (effects b as gs ev s) b) = Groups (heap s b) @ gs"
  by (simp add: effects_def)

lemma heap_effects_other: "c \<noteq> b \<Longrightarrow> heap (effects b as gs ev s) c = heap s c"
  by (simp add: effects_def)

lemma groups_effects:
  "groups (effects b as gs ev s) = fold (\<lambda>G tbl. tbl(Group.Name G \<mapsto> G)) gs (groups s)"
  by (simp add: effects_def)

lemmas effects_simps = Assets_effects Groups_effects heap_effects_other groups_effects

lemma inspect_fn_not_assign:
  "\<forall>Lhs Rhs. n \<noteq> ast_AssignStmt Lhs Rhs \<Longrightarrow> inspect_fn e filename b n s = (True, s)"
  by (cases n) (simp_all add: inspect_fn_def)

lemma inspect_fn_no_match:
  "ParseAssignment Lhs Rhs = None \<Longrightarrow>
   inspect_fn e filename b (ast_AssignStmt Lhs Rhs) s = (True, s)"
  by (simp add: inspect_fn_def)

lemma inspect_fn_Group:
  assumes "ParseAssignment Lhs Rhs = Some t" "Obj (RHS t) = ''mewn''" "Method (RHS t) = ''Group''"
    and "filepath_Abs e (filepath_Join e (filepath_Dir e filename) (Path (RHS t))) = Inr fullPath"
  shows "inspect_fn e filename b (ast_AssignStmt Lhs Rhs) s =
           (True, effects b [] [\<lparr>Group.Name = LHS t, LocalPath = Path (RHS t), FullPath = fullPath\<rparr>] (err s) s)"
  using assms by (simp add: inspect_fn_def Let_def effects_def append_Groups_def)

lemma inspect_fn_Group_Abs_fails:
  assumes "ParseAssignment Lhs Rhs = Some t" "Obj (RHS t) = ''mewn''" "Method (RHS t) = ''Group''"
    and "filepath_Abs e (filepath_Join e (filepath_Dir e filename) (Path (RHS t))) = Inl abs_err"
  shows "inspect_fn e filename b (ast_AssignStmt Lhs Rhs) s = (False, s)"
  using assms by (simp add: inspect_fn_def Let_def)

lemma inspect_fn_direct:
  assumes "ParseAssignment Lhs Rhs = Some t" "Obj (RHS t) = ''mewn''"
    and "Method (RHS t) \<in> {''String'', ''MustString'', ''Bytes'', ''MustBytes''}"
  shows "inspect_fn e filename b (ast_AssignStmt Lhs Rhs) s =
           (True, effects b [\<lparr>ReferencedAsset.Name = Path (RHS t), AssetPath = Path (RHS t), Group = None\<rparr>] [] (err s) s)"
  using assms by (auto simp add: inspect_fn_def Let_def effects_def append_Assets_def)

lemma inspect_fn_unknown_method:
  assumes "ParseAssignment Lhs Rhs = Some t" "Obj (RHS t) = ''mewn''"
    and "Method (RHS t) \<notin> {''Group'', ''String'', ''MustString'', ''Bytes'', ''MustBytes''}"
  shows "inspect_fn e filename b (ast_AssignStmt Lhs Rhs) s =
           (False, effects b [] [] (Some (Error (''unknown call to mewn.'' @ Method (RHS t)))) s)"
  using assms by (simp add: inspect_fn_def Let_def effects_def)

lemma inspect_fn_group_item:
  assumes "ParseAssignment Lhs Rhs = Some t" "Obj (RHS t) \<noteq> ''mewn''"
    and "groups s (Obj (RHS t)) = Some G"
  shows "inspect_fn e filename b (ast_AssignStmt Lhs Rhs) s =
           (True, effects b [\<lparr>ReferencedAsset.Name = Path (RHS t), AssetPath = Path (RHS t), Group = Some G\<rparr>] [] (err s) s)"
  using assms by (simp add: inspect_fn_def Let_def effects_def append_Assets_def)

lemma inspect_fn_unknown_receiver:
  assumes "ParseAssignment Lhs Rhs = Some t" "Obj (RHS t) \<noteq> ''mewn''"
    and "groups s (Obj (RHS t)) = None"
  shows "inspect_fn e filename b (ast_AssignStmt Lhs Rhs) s = (True, s)"
  using assms by (simp add: inspect_fn_def Let_def)

lemma inspect_fn_effects:
  "\<exists>as gs ev. snd (inspect_fn e filename b n s) = effects b as gs ev s"
proof (cases "\<exists>Lhs Rhs. n = ast_AssignStmt Lhs Rhs")
  case False
  then show ?thesis using inspect_fn_not_assign[of n e filename b s] effects_id[of b s]
    by (metis snd_conv)
next
  case True
  then obtain Lhs Rhs where n: "n = ast_AssignStmt Lhs Rhs" by blast
  show ?thesis
  proof (cases "ParseAssignment Lhs Rhs")
    case None
    then show ?thesis unfolding n using inspect_fn_no_match[of Lhs Rhs e filename b s] effects_id[of b s]
      by (metis snd_conv)
  next
    case (Some t)
    show ?thesis
    proof (cases "Obj (RHS t) = ''mewn''")
      case mewn: True
      consider (G) "Method (RHS t) = ''Group''"
        | (D) "Method (RHS t) \<in> {''String'', ''MustString'', ''Bytes'', ''MustBytes''}"
        | (U) "Method (RHS t) \<notin> {''Group'', ''String'', ''MustString'', ''Bytes'', ''MustBytes''}"
        by blast
      then show ?thesis
      proof cases
        case G
        show ?thesis
        proof (cases "filepath_Abs e (filepath_Join e (filepath_Dir e filename) (Path (RHS t)))")
          case (Inl a)
          then show ?thesis unfolding n
            using inspect_fn_Group_Abs_fails[OF Some mewn G, of e filename _ b s] effects_id[of b s]
            by (metis snd_conv)
        next
          case (Inr fullPath)
          then show ?thesis unfolding n
            using inspect_fn_Group[OF Some mewn G, of e filename _ b s]
            by (metis snd_conv)
        qed
      next
        case D
        then show ?thesis unfolding n
          using inspect_fn_direct[OF Some mewn, of e filename b s] by (metis snd_conv)
      next
        case U
        then show ?thesis unfolding n
          using inspect_fn_unknown_method[OF Some mewn, of e filename b s] by (metis snd_conv)
      qed
    next
      case other: False
      show ?thesis
      proof (cases "groups s (Obj (RHS t))")
        case None
        then show ?thesis unfolding n
          using inspect_fn_unknown_receiver[OF Some other, of s e filename b] effects_id[of b s]
          by (metis snd_conv)
      next
        case (Some G)
        then show ?thesis unfolding n
          using inspect_fn_group_item[OF \<open>ParseAssignment Lhs Rhs = Some t\<close> other, of s G e filename b]
          by (metis snd_conv)
      qed
    qed
  qed
qed

lemma Inspect_effects:
  "\<exists>as gs ev. Inspect (inspect_fn e filename b) n s = effects b as gs ev s"
  and Inspect_list_effects:
  "\<exists>as gs ev. Inspect_list (inspect_fn e filename b) ns s = effects b as gs ev s"
proof (induction "inspect_fn e filename b" n s and "inspect_fn e filename b" ns s rule: Inspect_Inspect_list.induct)
  case (1 name s)
  then show ?case by (simp add: inspect_fn_def) (metis effects_id)
next
  case (2 kind val s)
  then show ?case by (simp add: inspect_fn_def) (metis effects_id)
next
  case (3 X Sel s)
  then show ?case by (simp add: inspect_fn_def)
next
  case (4 callFun callArgs s)
  then show ?case by (simp add: inspect_fn_def) (metis effects_comp)
next
  case (5 Lhs Rhs s)
  obtain d s' where f: "inspect_fn e filename b (ast_AssignStmt Lhs Rhs) s = (d, s')"
    by (cases "inspect_fn e filename b (ast_AssignStmt Lhs Rhs) s")
  from inspect_fn_effects[of e filename b "ast_AssignStmt Lhs Rhs" s] f
  obtain as gs ev where s': "s' = effects b as gs ev s" by auto
  show ?case
  proof (cases d)
    case False
    with f s' show ?thesis by auto
  next
    case True
    from 5(1)[of d s'] f True
    obtain as1 gs1 ev1 where 1: "Inspect_list (inspect_fn e filename b) Lhs s' = effects b as1 gs1 ev1 s'"
      by auto
    from 5(2)[of d s'] f True
    obtain as2 gs2 ev2 where 2: "Inspect_list (inspect_fn e filename b) Rhs (Inspect_list (inspect_fn e filename b) Lhs s')
         = effects b as2 gs2 ev2 (Inspect_list (inspect_fn e filename b) Lhs s')"
      by auto
    show ?thesis using f True 1 2 s' by (simp add: effects_comp) blast
  qed
next
  case (6 children s)
  then show ?case by (simp add: inspect_fn_def)
next
  case (7 s)
  then show ?case by simp (metis effects_id)
next
  case (8 n ns s)
  then show ?case by simp (metis effects_comp)
qed

lemma Inspect_File_effects:
  "\<exists>as gs ev. Inspect_File e filename b (ast_File p children) s =
     effects b as gs ev (s\<lparr>heap := (heap s)(b := (heap s b)\<lparr>PackageName := p\<rparr>)\<rparr>)"
  using Inspect_list_effects by simp

lemma file_step_known:
  assumes "assetMap s (filepath_Dir e f) = Some b"
  shows "\<exists>as gs ev. file_step e f (ast_File p ch) s =
           (effects b as gs ev (s\<lparr>heap := (heap s)(b := (heap s b)\<lparr>PackageName := p\<rparr>)\<rparr>))
             \<lparr>result := result s @ [b]\<rparr>"
proof -
  obtain as gs ev where
    "Inspect_File e f b (ast_File p ch) (s\<lparr>err := None\<rparr>) =
       effects b as gs ev (s\<lparr>err := None\<rparr>\<lparr>heap := (heap (s\<lparr>err := None\<rparr>))(b := (heap (s\<lparr>err := None\<rparr>) b)\<lparr>PackageName := p\<rparr>)\<rparr>)"
    using Inspect_File_effects by blast
  then have "file_step e f (ast_File p ch) s =
           (effects b as gs ev (s\<lparr>heap := (heap s)(b := (heap s b)\<lparr>PackageName := p\<rparr>)\<rparr>))
             \<lparr>result := result s @ [b]\<rparr>"
    using assms by (simp add: file_step_def bundle_of_dir_def effects_def del: Inspect_File.simps)
  then show ?thesis by blast
qed

lemma file_step_new:
  assumes "assetMap s (filepath_Dir e f) = None"
  shows "\<exists>as gs ev. file_step e f (ast_File p ch) s =
           (effects (free s) as gs ev
              (s\<lparr>heap := (heap s)(free s := \<lparr>Caller = f, PackageName = p, BaseDir = filepath_Dir e f,
                                              Assets = [], Groups = []\<rparr>),
                 free := Suc (free s),
                 assetMap := (assetMap s)(filepath_Dir e f \<mapsto> free s)\<rparr>))
             \<lparr>result := result s @ [free s]\<rparr>"
proof -
  let ?s1 = "s\<lparr>err := None, heap := (heap s)(free s := \<lparr>Caller = f, PackageName = [], BaseDir = filepath_Dir e f,
                                              Assets = [], Groups = []\<rparr>),
                 free := Suc (free s),
                 assetMap := (assetMap s)(filepath_Dir e f \<mapsto> free s)\<rparr>"
  obtain as gs ev where
    "Inspect_File e f (free s) (ast_File p ch) ?s1 =
       effects (free s) as gs ev (?s1\<lparr>heap := (heap ?s1)(free s := (heap ?s1 (free s))\<lparr>PackageName := p\<rparr>)\<rparr>)"
    using Inspect_File_effects by blast
  then have "file_step e f (ast_File p ch) s =
           (effects (free s) as gs ev
              (s\<lparr>heap := (heap s)(free s := \<lparr>Caller = f, PackageName = p, BaseDir = filepath_Dir e f,
                                              Assets = [], Groups = []\<rparr>),
                 free := Suc (free s),
                 assetMap := (assetMap s)(filepath_Dir e f \<mapsto> free s)\<rparr>))
             \<lparr>result := result s @ [free s]\<rparr>"
    using assms by (simp add: file_step_def bundle_of_dir_def effects_def del: Inspect_File.simps)
  then show ?thesis by blast
qed

text \<open>What one iteration of the loop does to the registry and to the attributes of the bundles.\<close>

lemma file_step_props:
  assumes "registry_ok s" and node: "parser_ParseFile e f = Inr node"
  defines "s' \<equiv> file_step e f node s"
  shows "registry_ok s'"
    and "\<exists>b. assetMap s' = (assetMap s)(filepath_Dir e f \<mapsto> b) \<and> result s' = result s @ [b] \<and>
             PackageName (heap s' b) = package_name e f \<and>
             Caller (heap s' b) = (if filepath_Dir e f \<in> dom (assetMap s) then Caller (heap s b) else f) \<and>
             (\<forall>c. c \<noteq> b \<longrightarrow> heap s' c = heap s c) \<and>
             (\<forall>a. assetMap s (filepath_Dir e f) = Some a \<longrightarrow> a = b) \<and>
             (assetMap s (filepath_Dir e f) = None \<longrightarrow> b = free s)"
proof -
  obtain p ch where n: "node = ast_File p ch" by (cases node)
  have pk: "package_name e f = p" by (simp add: package_name_def node n)
  show "registry_ok s'"
  proof (cases "assetMap s (filepath_Dir e f)")
    case None
    from file_step_new[OF None, of p ch] obtain as gs ev where
      "s' = (effects (free s) as gs ev
              (s\<lparr>heap := (heap s)(free s := \<lparr>Caller = f, PackageName = p, BaseDir = filepath_Dir e f,
                                              Assets = [], Groups = []\<rparr>),
                 free := Suc (free s),
                 assetMap := (assetMap s)(filepath_Dir e f \<mapsto> free s)\<rparr>))
             \<lparr>result := result s @ [free s]\<rparr>"
      unfolding s'_def n by blast
    then show ?thesis using \<open>registry_ok s\<close> by (auto simp: registry_ok_def effects_def less_Suc_eq)
  next
    case (Some b)
    from file_step_known[OF Some, of p ch] obtain as gs ev where
      "s' = (effects b as gs ev (s\<lparr>heap := (heap s)(b := (heap s b)\<lparr>PackageName := p\<rparr>)\<rparr>))
             \<lparr>result := result s @ [b]\<rparr>"
      unfolding s'_def n by blast
    then show ?thesis using \<open>registry_ok s\<close> by (auto simp: registry_ok_def effects_def)
  qed
  show "\<exists>b. assetMap s' = (assetMap s)(filepath_Dir e f \<mapsto> b) \<and> result s' = result s @ [b] \<and>
             PackageName (heap s' b) = package_name e f \<and>
             Caller (heap s' b) = (if filepath_Dir e f \<in> dom (assetMap s) then Caller (heap s b) else f) \<and>
             (\<forall>c. c \<noteq> b \<longrightarrow> heap s' c = heap s c) \<and>
             (\<forall>a. assetMap s (filepath_Dir e f) = Some a \<longrightarrow> a = b) \<and>
             (assetMap s (filepath_Dir e f) = None \<longrightarrow> b = free s)"
  proof (cases "assetMap s (filepath_Dir e f)")
    case None
    from file_step_new[OF None, of p ch] obtain as gs ev where
      "s' = (effects (free s) as gs ev
              (s\<lparr>heap := (heap s)(free s := \<lparr>Caller = f, PackageName = p, BaseDir = filepath_Dir e f,
                                              Assets = [], Groups = []\<rparr>),
                 free := Suc (free s),
                 assetMap := (assetMap s)(filepath_Dir e f \<mapsto> free s)\<rparr>))
             \<lparr>result := result s @ [free s]\<rparr>"
      unfolding s'_def n by blast
    then show ?thesis using None pk
      by (intro exI[of _ "free s"]) (auto simp: effects_def dom_def)
  next
    case (Some b)
    from file_step_known[OF Some, of p ch] obtain as gs ev where
      "s' = (effects b as gs ev (s\<lparr>heap := (heap s)(b := (heap s b)\<lparr>PackageName := p\<rparr>)\<rparr>))
             \<lparr>result := result s @ [b]\<rparr>"
      unfolding s'_def n by blast
    then show ?thesis using Some pk
      by (intro exI[of _ b]) (auto simp: effects_def dom_def)
  qed
qed

section \<open>What the loop does to the registry\<close>

lemma registry_ok_D: "registry_ok s \<Longrightarrow> assetMap s d = Some a \<Longrightarrow> a < free s \<and> BaseDir (heap s a) = d"
  unfolding registry_ok_def by blast

lemma file_step_other:
  assumes "registry_ok s" "parser_ParseFile e f = Inr node" "assetMap s d = Some a" "d \<noteq> filepath_Dir e f"
  shows "heap (file_step e f node s) a = heap s a"
proof -
  from file_step_props(2)[OF assms(1,2)] obtain b where B:
    "assetMap (file_step e f node s) = (assetMap s)(filepath_Dir e f \<mapsto> b) \<and>
       result (file_step e f node s) = result s @ [b] \<and>
       PackageName (heap (file_step e f node s) b) = package_name e f \<and>
       Caller (heap (file_step e f node s) b) =
         (if filepath_Dir e f \<in> dom (assetMap s) then Caller (heap s b) else f) \<and>
       (\<forall>c. c \<noteq> b \<longrightarrow> heap (file_step e f node s) c = heap s c) \<and>
       (\<forall>a. assetMap s (filepath_Dir e f) = Some a \<longrightarrow> a = b) \<and>
       (assetMap s (filepath_Dir e f) = None \<longrightarrow> b = free s)"
    by (rule exE)
  note b1 = B[THEN conjunct2, THEN conjunct2, THEN conjunct2, THEN conjunct2, THEN conjunct1, rule_format]
  note b2 = B[THEN conjunct2, THEN conjunct2, THEN conjunct2, THEN conjunct2, THEN conjunct2, THEN conjunct1, rule_format]
  note b3 = B[THEN conjunct2, THEN conjunct2, THEN conjunct2, THEN conjunct2, THEN conjunct2, THEN conjunct2, rule_format]
  from registry_ok_D[OF assms(1,3)] have a: "a < free s" "BaseDir (heap s a) = d" by simp_all
  have "a \<noteq> b"
  proof (cases "assetMap s (filepath_Dir e f)")
    case None
    with b3 have "b = free s" by simp
    with a(1) show ?thesis by simp
  next
    case (Some c)
    with b2 have "c = b" by simp
    with Some registry_ok_D[OF assms(1), of "filepath_Dir e f" b] have "BaseDir (heap s b) = filepath_Dir e f"
      by simp
    with a(2) assms(4) show ?thesis by auto
  qed
  then show ?thesis by (rule b1)
qed

lemma find_snoc:
  "find P (xs @ [x]) = (case find P xs of Some y \<Rightarrow> Some y | None \<Rightarrow> if P x then Some x else None)"
  by (induction xs) auto

lemma files_loop_props:
  assumes "registry_ok s" "files_loop e fs s = Inr s'"
  shows "registry_ok s' \<and>
     result s' = result s @ map (\<lambda>f. the (assetMap s' (filepath_Dir e f))) fs \<and>
     dom (assetMap s') = dom (assetMap s) \<union> filepath_Dir e ` set fs \<and>
     (\<forall>d a. assetMap s d = Some a \<longrightarrow> assetMap s' d = Some a) \<and>
     (\<forall>d b. assetMap s' d = Some b \<longrightarrow>
        Caller (heap s' b) = (if d \<in> dom (assetMap s) then Caller (heap s b)
                              else the (find (\<lambda>f. filepath_Dir e f = d) fs))) \<and>
     (\<forall>d b. assetMap s' d = Some b \<longrightarrow>
        PackageName (heap s' b) =
          (case find (\<lambda>f. filepath_Dir e f = d) (rev fs) of
             Some g \<Rightarrow> package_name e g
           | None \<Rightarrow> PackageName (heap s b)))"
  using assms
proof (induction fs arbitrary: s)
  case Nil
  then show ?case by (auto simp: dom_def)
next
  case (Cons f fs)
  from Cons.prems(2) obtain node where node: "parser_ParseFile e f = Inr node"
    and loop: "files_loop e fs (file_step e f node s) = Inr s'"
    by (auto simp: files_loop.simps(2) split: sum.splits)
  let ?s1 = "file_step e f node s"
  let ?D = "filepath_Dir e"
  have wf1: "registry_ok ?s1" by (rule file_step_props(1)[OF Cons.prems(1) node])
  from file_step_props(2)[OF Cons.prems(1) node] obtain b where B:
    "assetMap (file_step e f node s) = (assetMap s)(filepath_Dir e f \<mapsto> b) \<and>
       result (file_step e f node s) = result s @ [b] \<and>
       PackageName (heap (file_step e f node s) b) = package_name e f \<and>
       Caller (heap (file_step e f node s) b) =
         (if filepath_Dir e f \<in> dom (assetMap s) then Caller (heap s b) else f) \<and>
       (\<forall>c. c \<noteq> b \<longrightarrow> heap (file_step e f node s) c = heap s c) \<and>
       (\<forall>a. assetMap s (filepath_Dir e f) = Some a \<longrightarrow> a = b) \<and>
       (assetMap s (filepath_Dir e f) = None \<longrightarrow> b = free s)"
    by (rule exE)
  note am1 = B[THEN conjunct1]
  note res1 = B[THEN conjunct2, THEN conjunct1]
  note pk1 = B[THEN conjunct2, THEN conjunct2, THEN conjunct1]
  note ca1 = B[THEN conjunct2, THEN conjunct2, THEN conjunct2, THEN conjunct1]
  note same = B[THEN conjunct2, THEN conjunct2, THEN conjunct2, THEN conjunct2, THEN conjunct2, THEN conjunct1]
  note IH = Cons.IH[OF wf1 loop]
  note wf' = IH[THEN conjunct1]
  note res' = IH[THEN conjunct2, THEN conjunct1]
  note dom' = IH[THEN conjunct2, THEN conjunct2, THEN conjunct1]
  note mono' = IH[THEN conjunct2, THEN conjunct2, THEN conjunct2, THEN conjunct1, rule_format]
  note caller' = IH[THEN conjunct2, THEN conjunct2, THEN conjunct2, THEN conjunct2, THEN conjunct1, rule_format]
  note pkg' = IH[THEN conjunct2, THEN conjunct2, THEN conjunct2, THEN conjunct2, THEN conjunct2, rule_format]
  have b': "assetMap s' (?D f) = Some b" using mono'[of "?D f" b] am1 by simp
  have mono: "assetMap s' d = Some a" if "assetMap s d = Some a" for d a
  proof -
    have "assetMap ?s1 d = Some a"
    proof (cases "d = ?D f")
      case True
      with that same have "a = b" by simp
      with True am1 show ?thesis by simp
    next
      case False
      with that am1 show ?thesis by simp
    qed
    then show ?thesis by (rule mono')
  qed
  have monoO: "\<forall>d a. assetMap s d = Some a \<longrightarrow> assetMap s' d = Some a"
    using mono by blast
  have other: "heap ?s1 c = heap s c" if "assetMap s d = Some c" "d \<noteq> ?D f" for d c
    using file_step_other[OF Cons.prems(1) node that] .
  have c1: "result s' = result s @ map (\<lambda>f. the (assetMap s' (?D f))) (f # fs)"
    using res' res1 b' by simp
  have c2: "dom (assetMap s') = dom (assetMap s) \<union> ?D ` set (f # fs)"
    using dom' am1 by auto
  have c3: "\<forall>d c. assetMap s' d = Some c \<longrightarrow>
        Caller (heap s' c) = (if d \<in> dom (assetMap s) then Caller (heap s c)
                              else the (find (\<lambda>f. ?D f = d) (f # fs)))"
  proof (intro allI impI)
    fix d c assume dc: "assetMap s' d = Some c"
    show "Caller (heap s' c) = (if d \<in> dom (assetMap s) then Caller (heap s c)
                              else the (find (\<lambda>f. ?D f = d) (f # fs)))"
    proof (cases "d = ?D f")
      case True
      with dc b' have cb: "c = b" by simp
      have in1: "d \<in> dom (assetMap ?s1)" using True am1 by simp
      have "Caller (heap s' c) = Caller (heap ?s1 b)" using caller'[OF dc] in1 cb by simp
      also have "\<dots> = (if d \<in> dom (assetMap s) then Caller (heap s b) else f)"
        using ca1 True by simp
      finally show ?thesis using True cb by simp
    next
      case False
      have domeq: "(d \<in> dom (assetMap ?s1)) = (d \<in> dom (assetMap s))"
        using False am1 by (simp add: dom_def)
      show ?thesis
      proof (cases "assetMap s d")
        case None
        then have "d \<notin> dom (assetMap s)" by (simp add: dom_def)
        with caller'[OF dc] domeq False show ?thesis by simp
      next
        case (Some a)
        from mono[OF Some] dc have ac: "a = c" by simp
        have ind: "d \<in> dom (assetMap s)" using Some by (simp add: dom_def)
        have "heap ?s1 c = heap s c" using other[OF Some False] ac by simp
        with caller'[OF dc] domeq ind show ?thesis by simp
      qed
    qed
  qed
  have c4: "\<forall>d c. assetMap s' d = Some c \<longrightarrow>
        PackageName (heap s' c) =
          (case find (\<lambda>f. ?D f = d) (rev (f # fs)) of
             Some g \<Rightarrow> package_name e g
           | None \<Rightarrow> PackageName (heap s c))"
  proof (intro allI impI)
    fix d c assume dc: "assetMap s' d = Some c"
    show "PackageName (heap s' c) =
          (case find (\<lambda>f. ?D f = d) (rev (f # fs)) of
             Some g \<Rightarrow> package_name e g
           | None \<Rightarrow> PackageName (heap s c))"
    proof (cases "find (\<lambda>f. ?D f = d) (rev fs)")
      case (Some g)
      with pkg'[OF dc] show ?thesis by (simp add: find_snoc)
    next
      case None
      then have notin: "d \<notin> ?D ` set fs" by (auto simp: find_None_iff)
      from pkg'[OF dc] None have eq: "PackageName (heap s' c) = PackageName (heap ?s1 c)" by simp
      show ?thesis
      proof (cases "d = ?D f")
        case True
        with dc b' have "c = b" by simp
        with eq pk1 None True show ?thesis by (simp add: find_snoc)
      next
        case False
        from dc have "d \<in> dom (assetMap s')" by (simp add: dom_def)
        with dom' notin have "d \<in> dom (assetMap ?s1)" by simp
        with am1 False obtain a where a: "assetMap s d = Some a" by (auto simp: dom_def)
        from mono[OF a] dc have ac: "a = c" by simp
        have "heap ?s1 c = heap s c" using other[OF a False] ac by simp
        with eq None False show ?thesis by (simp add: find_snoc)
      qed
    qed
  qed
  from wf' c1 c2 monoO c3 c4 show ?case by (intro conjI) assumption+
qed


lemma registry_ok_init: "registry_ok scan_init"
  by (simp add: registry_ok_def scan_init_def)

lemma files_loop_parse_error:
  "find (\<lambda>f. isl (parser_ParseFile e f)) fs = Some f \<Longrightarrow>
   files_loop e fs s = Inl (projl (parser_ParseFile e f))"
proof (induction fs arbitrary: s)
  case Nil
  then show ?case by simp
next
  case (Cons g fs)
  then show ?case by (cases "parser_ParseFile e g") auto
qed

lemma files_loop_all_parsed:
  "find (\<lambda>f. isl (parser_ParseFile e f)) fs = None \<Longrightarrow> \<exists>s'. files_loop e fs s = Inr s'"
proof (induction fs arbitrary: s)
  case Nil
  then show ?case by simp
next
  case (Cons g fs)
  then show ?case by (cases "parser_ParseFile e g") auto
qed

lemma GetReferencedAssets_Inr:
  assumes "GetReferencedAssets e fs = Inr (res, h)"
  obtains s' where "files_loop e fs scan_init = Inr s'" "res = result s'" "h = heap s'"
  using assms by (auto simp: GetReferencedAssets_def split: sum.splits)

section \<open>The scan as a trace of statements\<close>

lemma inspect_fn_match:
  assumes "ParseAssignment Lhs Rhs = Some t"
  shows "inspect_fn e filename b (ast_AssignStmt Lhs Rhs) s =
           (descends e filename t, stmt_effect e filename b t s)"
proof (cases "Obj (RHS t) = ''mewn''")
  case mewn: True
  consider (G) "Method (RHS t) = ''Group''"
    | (D) "Method (RHS t) \<in> {''String'', ''MustString'', ''Bytes'', ''MustBytes''}"
    | (U) "Method (RHS t) \<notin> {''Group'', ''String'', ''MustString'', ''Bytes'', ''MustBytes''}"
    by blast
  then show ?thesis
  proof cases
    case G
    show ?thesis
    proof (cases "filepath_Abs e (filepath_Join e (filepath_Dir e filename) (Path (RHS t)))")
      case (Inl abs_err)
      from inspect_fn_Group_Abs_fails[OF assms mewn G Inl] mewn G Inl effects_id[of b s]
      show ?thesis
        by (simp add: descends_def stmt_effect_def declares_group_def declares_asset_def)
    next
      case (Inr fullPath)
      from inspect_fn_Group[OF assms mewn G Inr] mewn G Inr
      show ?thesis
        by (simp add: descends_def stmt_effect_def declares_group_def declares_asset_def)
    qed
  next
    case D
    from inspect_fn_direct[OF assms mewn D] mewn D
    show ?thesis
      by (auto simp add: descends_def stmt_effect_def declares_group_def declares_asset_def)
  next
    case U
    from inspect_fn_unknown_method[OF assms mewn U] mewn U
    show ?thesis
      by (simp add: descends_def stmt_effect_def declares_group_def declares_asset_def)
  qed
next
  case other: False
  show ?thesis
  proof (cases "groups s (Obj (RHS t))")
    case None
    from inspect_fn_unknown_receiver[OF assms other None] other None effects_id[of b s]
    show ?thesis
      by (simp add: descends_def stmt_effect_def declares_group_def declares_asset_def)
  next
    case (Some G)
    from inspect_fn_group_item[OF assms other Some] other Some
    show ?thesis
      by (simp add: descends_def stmt_effect_def declares_group_def declares_asset_def)
  qed
qed

lemma Inspect_fold:
  "Inspect (inspect_fn e filename b) n s = fold (stmt_effect e filename b) (visited e filename n) s"
  and Inspect_list_fold:
  "Inspect_list (inspect_fn e filename b) ns s =
     fold (stmt_effect e filename b) (visited_list e filename ns) s"
proof (induction "inspect_fn e filename b" n s and "inspect_fn e filename b" ns s
       rule: Inspect_Inspect_list.induct)
  case (1 name s)
  then show ?case by (simp add: inspect_fn_def)
next
  case (2 kind val s)
  then show ?case by (simp add: inspect_fn_def)
next
  case (3 X Sel s)
  then show ?case by (simp add: inspect_fn_def)
next
  case (4 callFun callArgs s)
  then show ?case by (simp add: inspect_fn_def)
next
  case (5 Lhs Rhs s)
  show ?case
  proof (cases "ParseAssignment Lhs Rhs")
    case None
    have f: "inspect_fn e filename b (ast_AssignStmt Lhs Rhs) s = (True, s)"
      by (rule inspect_fn_no_match[OF None])
    from 5(1)[of True s] 5(2)[of True s] f None show ?thesis by simp
  next
    case (Some t)
    note f = inspect_fn_match[OF Some, of e filename b s]
    show ?thesis
    proof (cases "descends e filename t")
      case True
      from 5(1)[of True "stmt_effect e filename b t s"] 5(2)[of True "stmt_effect e filename b t s"]
           f Some True
      show ?thesis by simp
    next
      case False
      with f Some show ?thesis by simp
    qed
  qed
next
  case (6 children s)
  then show ?case by (simp add: inspect_fn_def)
next
  case (7 s)
  then show ?case by simp
next
  case (8 n ns s)
  then show ?case by simp
qed

lemma trace_table_append:
  "trace_table e (tr1 @ tr2) tbl = trace_table e tr2 (trace_table e tr1 tbl)"
  by (induction tr1 arbitrary: tbl) auto

lemma trace_assets_append:
  "trace_assets e (tr1 @ tr2) tbl d =
     trace_assets e tr1 tbl d @ trace_assets e tr2 (trace_table e tr1 tbl) d"
  by (induction tr1 arbitrary: tbl) auto

lemma trace_groups_append:
  "trace_groups e (tr1 @ tr2) d = trace_groups e tr1 d @ trace_groups e tr2 d"
  by (induction tr1) auto

lemma trace_assets_other_dir:
  "filepath_Dir e f \<noteq> d \<Longrightarrow> trace_assets e (map (Pair f) ts) tbl d = []"
  by (induction ts arbitrary: tbl) auto

lemma trace_groups_other_dir:
  "filepath_Dir e f \<noteq> d \<Longrightarrow> trace_groups e (map (Pair f) ts) d = []"
  by (induction ts) auto

lemma stmt_effect_fields:
  "assetMap (stmt_effect e f b t s) = assetMap s"
  "free (stmt_effect e f b t s) = free s"
  "result (stmt_effect e f b t s) = result s"
  "groups (stmt_effect e f b t s) = trace_table e [(f, t)] (groups s)"
  "c \<noteq> b \<Longrightarrow> heap (stmt_effect e f b t s) c = heap s c"
  "Assets (heap (stmt_effect e f b t s) b) =
     Assets (heap s b) @ trace_assets e [(f, t)] (groups s) (filepath_Dir e f)"
  "Groups (heap (stmt_effect e f b t s) b) =
     Groups (heap s b) @ trace_groups e [(f, t)] (filepath_Dir e f)"
  by (auto simp: stmt_effect_def effects_def declares_group_def split: option.splits sum.splits)

lemma fold_stmt_effect_frame:
  "assetMap (fold (stmt_effect e f b) ts s) = assetMap s"
  "free (fold (stmt_effect e f b) ts s) = free s"
  "result (fold (stmt_effect e f b) ts s) = result s"
  "c \<noteq> b \<Longrightarrow> heap (fold (stmt_effect e f b) ts s) c = heap s c"
  by (induction ts arbitrary: s) (simp_all add: stmt_effect_fields)

lemma fold_stmt_effect_groups:
  "groups (fold (stmt_effect e f b) ts s) = trace_table e (map (Pair f) ts) (groups s)"
  by (induction ts arbitrary: s) (simp_all add: stmt_effect_fields)

lemma fold_stmt_effect_Assets:
  "Assets (heap (fold (stmt_effect e f b) ts s) b) =
     Assets (heap s b) @ trace_assets e (map (Pair f) ts) (groups s) (filepath_Dir e f)"
  by (induction ts arbitrary: s) (simp_all add: stmt_effect_fields)

lemma fold_stmt_effect_Groups:
  "Groups (heap (fold (stmt_effect e f b) ts s) b) =
     Groups (heap s b) @ trace_groups e (map (Pair f) ts) (filepath_Dir e f)"
  by (induction ts arbitrary: s) (simp_all add: stmt_effect_fields)

lemma file_step_known_fold:
  assumes "assetMap s (filepath_Dir e f) = Some a"
  shows "file_step e f (ast_File p ch) s =
           (fold (stmt_effect e f a) (visited_list e f ch)
              (s\<lparr>err := None, heap := (heap s)(a := (heap s a)\<lparr>PackageName := p\<rparr>)\<rparr>))
             \<lparr>result := result s @ [a]\<rparr>"
  using assms
  by (simp add: file_step_def bundle_of_dir_def Inspect_list_fold fold_stmt_effect_frame)

lemma file_step_new_fold:
  assumes "assetMap s (filepath_Dir e f) = None"
  shows "file_step e f (ast_File p ch) s =
           (fold (stmt_effect e f (free s)) (visited_list e f ch)
              (s\<lparr>err := None,
                 free := Suc (free s),
                 assetMap := (assetMap s)(filepath_Dir e f \<mapsto> free s),
                 heap := (heap s)(free s := \<lparr>Caller = f, PackageName = p, BaseDir = filepath_Dir e f,
                                              Assets = [], Groups = []\<rparr>)\<rparr>))
             \<lparr>result := result s @ [free s]\<rparr>"
  using assms
  by (simp add: file_step_def bundle_of_dir_def Inspect_list_fold fold_stmt_effect_frame)

lemma file_step_trace:
  assumes parse: "parser_ParseFile e f = Inr node"
    and b: "assetMap (file_step e f node s) (filepath_Dir e f) = Some b"
  shows "groups (file_step e f node s) =
           trace_table e (map (Pair f) (file_statements e f)) (groups s)"
    and "Assets (heap (file_step e f node s) b) =
           (if filepath_Dir e f \<in> dom (assetMap s) then Assets (heap s b) else []) @
           trace_assets e (map (Pair f) (file_statements e f)) (groups s) (filepath_Dir e f)"
    and "Groups (heap (file_step e f node s) b) =
           (if filepath_Dir e f \<in> dom (assetMap s) then Groups (heap s b) else []) @
           trace_groups e (map (Pair f) (file_statements e f)) (filepath_Dir e f)"
proof -
  obtain p ch where n: "node = ast_File p ch" by (cases node)
  have fs: "file_statements e f = visited_list e f ch"
    by (simp add: file_statements_def parse n)
  show "groups (file_step e f node s) =
           trace_table e (map (Pair f) (file_statements e f)) (groups s)"
  proof (cases "assetMap s (filepath_Dir e f)")
    case None
    show ?thesis unfolding n fs file_step_new_fold[OF None]
      by (simp add: fold_stmt_effect_groups)
  next
    case (Some a)
    show ?thesis unfolding n fs file_step_known_fold[OF Some]
      by (simp add: fold_stmt_effect_groups)
  qed
  show "Assets (heap (file_step e f node s) b) =
           (if filepath_Dir e f \<in> dom (assetMap s) then Assets (heap s b) else []) @
           trace_assets e (map (Pair f) (file_statements e f)) (groups s) (filepath_Dir e f)"
  proof (cases "assetMap s (filepath_Dir e f)")
    case None
    from b have "b = free s" unfolding n file_step_new_fold[OF None]
      by (simp add: fold_stmt_effect_frame)
    then show ?thesis unfolding n fs file_step_new_fold[OF None] using None
      by (simp add: fold_stmt_effect_Assets dom_def)
  next
    case (Some a)
    from b have "b = a" unfolding n file_step_known_fold[OF Some] using Some
      by (simp add: fold_stmt_effect_frame)
    then show ?thesis unfolding n fs file_step_known_fold[OF Some] using Some
      by (simp add: fold_stmt_effect_Assets dom_def)
  qed
  show "Groups (heap (file_step e f node s) b) =
           (if filepath_Dir e f \<in> dom (assetMap s) then Groups (heap s b) else []) @
           trace_groups e (map (Pair f) (file_statements e f)) (filepath_Dir e f)"
  proof (cases "assetMap s (filepath_Dir e f)")
    case None
    from b have "b = free s" unfolding n file_step_new_fold[OF None]
      by (simp add: fold_stmt_effect_frame)
    then show ?thesis unfolding n fs file_step_new_fold[OF None] using None
      by (simp add: fold_stmt_effect_Groups dom_def)
  next
    case (Some a)
    from b have "b = a" unfolding n file_step_known_fold[OF Some] using Some
      by (simp add: fold_stmt_effect_frame)
    then show ?thesis unfolding n fs file_step_known_fold[OF Some] using Some
      by (simp add: fold_stmt_effect_Groups dom_def)
  qed
qed

lemma scan_trace_Cons:
  "scan_trace e (f # fs) = map (Pair f) (file_statements e f) @ scan_trace e fs"
  by (simp add: scan_trace_def)

lemma files_loop_trace:
  assumes "registry_ok s" "files_loop e fs s = Inr s'"
  shows "groups s' = trace_table e (scan_trace e fs) (groups s) \<and>
     (\<forall>d b. assetMap s' d = Some b \<longrightarrow>
        Assets (heap s' b) =
          (if d \<in> dom (assetMap s) then Assets (heap s b) else []) @
          trace_assets e (scan_trace e fs) (groups s) d \<and>
        Groups (heap s' b) =
          (if d \<in> dom (assetMap s) then Groups (heap s b) else []) @
          trace_groups e (scan_trace e fs) d)"
  using assms
proof (induction fs arbitrary: s)
  case Nil
  then show ?case by (auto simp: scan_trace_def dom_def)
next
  case (Cons f fs)
  from Cons.prems(2) obtain node where node: "parser_ParseFile e f = Inr node"
    and loop: "files_loop e fs (file_step e f node s) = Inr s'"
    by (auto split: sum.splits)
  let ?s1 = "file_step e f node s"
  let ?D = "filepath_Dir e"
  let ?F = "map (Pair f) (file_statements e f)"
  let ?R = "scan_trace e fs"
  have wf1: "registry_ok ?s1" by (rule file_step_props(1)[OF Cons.prems(1) node])
  from file_step_props(2)[OF Cons.prems(1) node] obtain b where B:
    "assetMap (file_step e f node s) = (assetMap s)(filepath_Dir e f \<mapsto> b) \<and>
       result (file_step e f node s) = result s @ [b] \<and>
       PackageName (heap (file_step e f node s) b) = package_name e f \<and>
       Caller (heap (file_step e f node s) b) =
         (if filepath_Dir e f \<in> dom (assetMap s) then Caller (heap s b) else f) \<and>
       (\<forall>c. c \<noteq> b \<longrightarrow> heap (file_step e f node s) c = heap s c) \<and>
       (\<forall>a. assetMap s (filepath_Dir e f) = Some a \<longrightarrow> a = b) \<and>
       (assetMap s (filepath_Dir e f) = None \<longrightarrow> b = free s)"
    by (rule exE)
  note am1 = B[THEN conjunct1]
  note same = B[THEN conjunct2, THEN conjunct2, THEN conjunct2, THEN conjunct2, THEN conjunct2, THEN conjunct1]
  have b1: "assetMap ?s1 (?D f) = Some b" using am1 by simp
  note ft = file_step_trace[OF node b1]
  note P = files_loop_props[OF wf1 loop]
  note mono' = P[THEN conjunct2, THEN conjunct2, THEN conjunct2, THEN conjunct1, rule_format]
  note IH = Cons.IH[OF wf1 loop]
  note IHg = IH[THEN conjunct1]
  note IHa = IH[THEN conjunct2, rule_format, THEN conjunct1]
  note IHG = IH[THEN conjunct2, rule_format, THEN conjunct2]
  have tr: "scan_trace e (f # fs) = ?F @ ?R" by (rule scan_trace_Cons)
  have g: "groups s' = trace_table e (scan_trace e (f # fs)) (groups s)"
    unfolding tr trace_table_append using IHg ft(1) by simp
  have b': "assetMap s' (?D f) = Some b" by (rule mono'[OF b1])
  have mono: "assetMap s' d = Some a" if "assetMap s d = Some a" for d a
  proof -
    have "assetMap ?s1 d = Some a"
    proof (cases "d = ?D f")
      case True
      with that same have "a = b" by simp
      with True am1 show ?thesis by simp
    next
      case False
      with that am1 show ?thesis by simp
    qed
    then show ?thesis by (rule mono')
  qed
  have other: "heap ?s1 c = heap s c" if "assetMap s d = Some c" "d \<noteq> ?D f" for d c
    using file_step_other[OF Cons.prems(1) node that] .
  have ag: "Assets (heap s' c) =
          (if d \<in> dom (assetMap s) then Assets (heap s c) else []) @
          trace_assets e (scan_trace e (f # fs)) (groups s) d \<and>
        Groups (heap s' c) =
          (if d \<in> dom (assetMap s) then Groups (heap s c) else []) @
          trace_groups e (scan_trace e (f # fs)) d"
    if dc: "assetMap s' d = Some c" for d c
  proof (cases "d = ?D f")
    case True
    with dc b' have cb: "c = b" by simp
    have in1: "d \<in> dom (assetMap ?s1)" using True am1 by simp
    have A: "Assets (heap s' c) = Assets (heap ?s1 b) @ trace_assets e ?R (groups ?s1) d"
      using IHa[OF dc] in1 cb by simp
    have G: "Groups (heap s' c) = Groups (heap ?s1 b) @ trace_groups e ?R d"
      using IHG[OF dc] in1 cb by simp
    show ?thesis
      unfolding tr trace_assets_append trace_groups_append A G
      using ft True cb by simp
  next
    case False
    have domeq: "(d \<in> dom (assetMap ?s1)) = (d \<in> dom (assetMap s))"
      using False am1 by (simp add: dom_def)
    have F0: "trace_assets e ?F (groups s) d = []" "trace_groups e ?F d = []"
      using False by (simp_all add: trace_assets_other_dir trace_groups_other_dir)
    show ?thesis
    proof (cases "assetMap s d")
      case None
      then have nd: "d \<notin> dom (assetMap s)" by (simp add: dom_def)
      show ?thesis
        unfolding tr trace_assets_append trace_groups_append F0
        using IHa[OF dc] IHG[OF dc] domeq nd ft(1) by simp
    next
      case (Some a)
      from mono[OF Some] dc have ac: "a = c" by simp
      have ind: "d \<in> dom (assetMap s)" using Some by (simp add: dom_def)
      have h: "heap ?s1 c = heap s c" using other[OF Some False] ac by simp
      show ?thesis
        unfolding tr trace_assets_append trace_groups_append F0
        using IHa[OF dc] IHG[OF dc] domeq ind ft(1) h by simp
    qed
  qed
  from g ag show ?case by blast
qed

lemma scan_contents:
  assumes "GetReferencedAssets e fs = Inr (res, h)" and "i < length fs"
  shows "Assets (h (res ! i)) = trace_assets e (scan_trace e fs) Map.empty (filepath_Dir e (fs ! i))"
    and "Groups (h (res ! i)) = trace_groups e (scan_trace e fs) (filepath_Dir e (fs ! i))"
proof -
  from assms(1) obtain s' where loop: "files_loop e fs scan_init = Inr s'"
    and res: "res = result s'" and h: "h = heap s'"
    by (rule GetReferencedAssets_Inr)
  note P = files_loop_props[OF registry_ok_init loop]
  note r = P[THEN conjunct2, THEN conjunct1]
  note d = P[THEN conjunct2, THEN conjunct2, THEN conjunct1]
  note T = files_loop_trace[OF registry_ok_init loop, THEN conjunct2, rule_format]
  let ?d = "filepath_Dir e (fs ! i)"
  from assms(2) d have "?d \<in> dom (assetMap s')" by simp
  then obtain b where b: "assetMap s' ?d = Some b" by (auto simp: dom_def)
  from r res assms(2) b have ri: "res ! i = b" by (simp add: scan_init_def)
  from T[OF b, THEN conjunct1] ri h
  show "Assets (h (res ! i)) = trace_assets e (scan_trace e fs) Map.empty ?d"
    by (simp add: scan_init_def)
  from T[OF b, THEN conjunct2] ri h
  show "Groups (h (res ! i)) = trace_groups e (scan_trace e fs) ?d"
    by (simp add: scan_init_def)
qed

lemma scan_trace_file:
  "(f, t) \<in> set (scan_trace e filenames) \<Longrightarrow> f \<in> set filenames"
  by (auto simp: scan_trace_def)

lemmas trace_defs = scan_trace_def file_statements_def declares_group_def declares_asset_def
  descends_def ParseAssignment_def ParseCallExpr_def dquote_def

lemma trace_table_lookup:
  "trace_table e tr tbl g =
     (case find (\<lambda>(f, t). LHS t = g \<and> declares_group e f t \<noteq> None) (rev tr) of
        Some (f, t) \<Rightarrow> declares_group e f t
      | None \<Rightarrow> tbl g)"
proof (induction tr rule: rev_induct)
  case Nil
  then show ?case by simp
next
  case (snoc x tr)
  obtain f t where x: "x = (f, t)" by (cases x)
  show ?case
    unfolding x trace_table_append
    using snoc.IH by (auto split: option.splits)
qed

lemma item_call_declares_no_group:
  "Obj (RHS t) \<noteq> ''mewn'' \<Longrightarrow> declares_group e f t = None"
  by (simp add: declares_group_def)

lemma item_call_asset:
  assumes "Obj (RHS t) \<noteq> ''mewn''"
  shows "(case declares_asset tbl t of Some asset \<Rightarrow> [asset] | None \<Rightarrow> []) =
         (case tbl (Obj (RHS t)) of
            Some G \<Rightarrow> [\<lparr>ReferencedAsset.Name = Path (RHS t), AssetPath = Path (RHS t),
                          Group = Some G\<rparr>]
          | None \<Rightarrow> [])"
  using assms by (simp add: declares_asset_def split: option.splits)

lemma trace_assets_split:
  "trace_assets e (pre @ (f, t) # post) tbl d =
     trace_assets e pre tbl d @
     (if filepath_Dir e f = d
      then (case declares_asset (trace_table e pre tbl) t of Some asset \<Rightarrow> [asset] | None \<Rightarrow> [])
      else []) @
     trace_assets e post (trace_table e (pre @ [(f, t)]) tbl) d"
  by (simp add: trace_assets_append trace_table_append)



section \<open>Properties of the scan\<close>

lemmas example_defs = example_env_def example_files_def example_Dir_def assign_call_def func_decl_def

subsection \<open>Parse failures\<close>

text \<open>
  C8. If parsing any of the files fails, the scan stops at the first file that fails to
  parse and returns the parser's error for that file, with no result: no bundle of a file
  before or after it is returned.
\<close>

theorem parse_failure_aborts_scan:
  assumes "f \<in> set filenames" and "isl (parser_ParseFile e f)"
  shows "\<exists>g parse_err.
           find (\<lambda>f. isl (parser_ParseFile e f)) filenames = Some g \<and>
           parser_ParseFile e g = Inl parse_err \<and>
           GetReferencedAssets e filenames = Inl parse_err"
proof -
  from assms have "find (\<lambda>f. isl (parser_ParseFile e f)) filenames \<noteq> None"
    by (auto simp: find_None_iff)
  then obtain g where g: "find (\<lambda>f. isl (parser_ParseFile e f)) filenames = Some g" by auto
  then have "isl (parser_ParseFile e g)" by (auto simp: find_Some_iff)
  then obtain parse_err where pe: "parser_ParseFile e g = Inl parse_err"
    by (cases "parser_ParseFile e g") auto
  from files_loop_parse_error[OF g, of scan_init] pe
  have "GetReferencedAssets e filenames = Inl parse_err"
    by (simp add: GetReferencedAssets_def)
  with g pe show ?thesis by blast
qed

text \<open>The second of three files does not parse.\<close>

theorem parse_failure_aborts_scan_witness:
  "''a/broken.go'' \<in> set [''a/x.go'', ''a/broken.go'', ''b/z.go''] \<and>
   isl (parser_ParseFile (example_env True example_files) ''a/broken.go'') \<and>
   GetReferencedAssets (example_env True example_files) [''a/x.go'', ''a/broken.go'', ''b/z.go'']
     = Inl (Error ''a/broken.go: syntax error'')"
proof -
  have h1: "''a/broken.go'' \<in> set [''a/x.go'', ''a/broken.go'', ''b/z.go'']" by simp
  have h2: "isl (parser_ParseFile (example_env True example_files) ''a/broken.go'')"
    by (simp add: example_defs)
  from parse_failure_aborts_scan[OF h1 h2] obtain g parse_err where
    g: "find (\<lambda>f. isl (parser_ParseFile (example_env True example_files) f))
          [''a/x.go'', ''a/broken.go'', ''b/z.go''] = Some g"
    and pe: "parser_ParseFile (example_env True example_files) g = Inl parse_err"
    and r: "GetReferencedAssets (example_env True example_files)
              [''a/x.go'', ''a/broken.go'', ''b/z.go''] = Inl parse_err"
    by (elim exE conjE)
  from g have "g = ''a/broken.go''" by (simp add: example_defs)
  with pe have "parse_err = Error ''a/broken.go: syntax error''" by (simp add: example_defs)
  with r h1 h2 show ?thesis by simp
qed

lemmas scan_defs = GetReferencedAssets_def file_step_def bundle_of_dir_def scan_init_def
  inspect_fn_def ParseAssignment_def ParseCallExpr_def dquote_def append_Assets_def
  append_Groups_def bundles_def Let_def

subsection \<open>The result list and the attributes of a bundle\<close>

lemma scan_result:
  assumes "GetReferencedAssets e fs = Inr (res, h)"
  shows "\<exists>am. res = map (\<lambda>f. the (am (filepath_Dir e f))) fs \<and>
           dom am = filepath_Dir e ` set fs \<and>
           (\<forall>d a. am d = Some a \<longrightarrow> BaseDir (h a) = d) \<and>
           (\<forall>d a. am d = Some a \<longrightarrow>
              Caller (h a) = the (find (\<lambda>f. filepath_Dir e f = d) fs)) \<and>
           (\<forall>d a. am d = Some a \<longrightarrow>
              PackageName (h a) =
                (case find (\<lambda>f. filepath_Dir e f = d) (rev fs) of
                   Some g \<Rightarrow> package_name e g
                 | None \<Rightarrow> []))"
proof -
  from assms obtain s' where loop: "files_loop e fs scan_init = Inr s'"
    and res: "res = result s'" and h: "h = heap s'"
    by (rule GetReferencedAssets_Inr)
  note P = files_loop_props[OF registry_ok_init loop]
  note ok = P[THEN conjunct1]
  note r = P[THEN conjunct2, THEN conjunct1]
  note d = P[THEN conjunct2, THEN conjunct2, THEN conjunct1]
  note c = P[THEN conjunct2, THEN conjunct2, THEN conjunct2, THEN conjunct2, THEN conjunct1, rule_format]
  note p = P[THEN conjunct2, THEN conjunct2, THEN conjunct2, THEN conjunct2, THEN conjunct2, rule_format]
  have 1: "res = map (\<lambda>f. the (assetMap s' (filepath_Dir e f))) fs"
    using r res by (simp add: scan_init_def)
  have 2: "dom (assetMap s') = filepath_Dir e ` set fs"
    using d by (simp add: scan_init_def)
  have 3: "\<forall>d a. assetMap s' d = Some a \<longrightarrow> BaseDir (h a) = d"
    using registry_ok_D[OF ok] h by blast
  have 4: "\<forall>d a. assetMap s' d = Some a \<longrightarrow>
              Caller (h a) = the (find (\<lambda>f. filepath_Dir e f = d) fs)"
  proof (intro allI impI)
    fix d a assume "assetMap s' d = Some a"
    from c[OF this] show "Caller (h a) = the (find (\<lambda>f. filepath_Dir e f = d) fs)"
      by (simp add: scan_init_def h)
  qed
  have 5: "\<forall>d a. assetMap s' d = Some a \<longrightarrow>
              PackageName (h a) =
                (case find (\<lambda>f. filepath_Dir e f = d) (rev fs) of
                   Some g \<Rightarrow> package_name e g
                 | None \<Rightarrow> [])"
  proof (intro allI impI)
    fix d a assume "assetMap s' d = Some a"
    from p[OF this] show "PackageName (h a) =
                (case find (\<lambda>f. filepath_Dir e f = d) (rev fs) of
                   Some g \<Rightarrow> package_name e g
                 | None \<Rightarrow> [])"
      by (simp add: scan_init_def h nil_bundle_def split: option.splits)
  qed
  from 1 2 3 4 5 show ?thesis by (intro exI[of _ "assetMap s'"] conjI) assumption+
qed

text \<open>
  C3 (as the code has it). A successful scan returns one entry for every input file, in
  input order: entry \<open>i\<close> points to the bundle of the directory of file \<open>i\<close>. Two entries
  are the same bundle exactly when their files lie in the same directory, so files of
  different directories give distinct bundles, files of one directory share one bundle,
  and a directory with \<open>k\<close> files has its bundle \<open>k\<close> times in the list. The first
  occurrences follow the order in which the directories are first met.
\<close>

theorem result_has_one_entry_per_file:
  assumes "GetReferencedAssets e filenames = Inr (res, h)"
  shows "length res = length filenames \<and>
         (\<forall>i<length filenames. BaseDir (h (res ! i)) = filepath_Dir e (filenames ! i)) \<and>
         (\<forall>i<length filenames. \<forall>j<length filenames.
            (res ! i = res ! j) = (filepath_Dir e (filenames ! i) = filepath_Dir e (filenames ! j)))"
proof -
  from scan_result[OF assms] obtain am where A:
    "res = map (\<lambda>f. the (am (filepath_Dir e f))) filenames \<and>
     dom am = filepath_Dir e ` set filenames \<and>
     (\<forall>d a. am d = Some a \<longrightarrow> BaseDir (h a) = d)"
    by (elim exE conjE) (intro that conjI, assumption+)
  note res = A[THEN conjunct1]
  note dm = A[THEN conjunct2, THEN conjunct1]
  note bd = A[THEN conjunct2, THEN conjunct2, rule_format]
  have len: "length res = length filenames" using res by simp
  have entry: "am (filepath_Dir e (filenames ! i)) = Some (res ! i)" if "i < length filenames" for i
  proof -
    from that have "filepath_Dir e (filenames ! i) \<in> dom am" using dm by simp
    then obtain a where a: "am (filepath_Dir e (filenames ! i)) = Some a" by (auto simp: dom_def)
    with res that show ?thesis by simp
  qed
  have base: "BaseDir (h (res ! i)) = filepath_Dir e (filenames ! i)" if "i < length filenames" for i
    using bd[OF entry[OF that]] .
  have same: "(res ! i = res ! j) = (filepath_Dir e (filenames ! i) = filepath_Dir e (filenames ! j))"
    if "i < length filenames" "j < length filenames" for i j
  proof
    assume "res ! i = res ! j"
    with base[OF that(1)] base[OF that(2)] show "filepath_Dir e (filenames ! i) = filepath_Dir e (filenames ! j)"
      by simp
  next
    assume "filepath_Dir e (filenames ! i) = filepath_Dir e (filenames ! j)"
    with entry[OF that(1)] entry[OF that(2)] show "res ! i = res ! j" by simp
  qed
  from len base same show ?thesis by simp
qed

theorem result_has_one_entry_per_file_witness:
  "\<exists>res h. GetReferencedAssets (example_env True example_files)
              [''a/x.go'', ''a/y.go'', ''b/z.go'', ''c/w.go''] = Inr (res, h) \<and>
           res = [0, 0, 1, 2] \<and>
           map (\<lambda>a. BaseDir (h a)) res = [''a'', ''a'', ''b'', ''c'']"
proof -
  let ?e = "example_env True example_files"
  let ?fs = "[''a/x.go'', ''a/y.go'', ''b/z.go'', ''c/w.go'']"
  have "(case GetReferencedAssets ?e ?fs of Inl parse_err \<Rightarrow> False | Inr r \<Rightarrow> fst r = [0, 0, 1, 2])"
    by (simp add: scan_defs example_defs)
  then obtain res h where r: "GetReferencedAssets ?e ?fs = Inr (res, h)" and res: "res = [0, 0, 1, 2]"
    by (cases "GetReferencedAssets ?e ?fs") auto
  from result_has_one_entry_per_file[OF r]
  have b: "\<forall>i<length ?fs. BaseDir (h (res ! i)) = filepath_Dir ?e (?fs ! i)" by (rule conjunct2[THEN conjunct1])
  have "BaseDir (h (res ! 0)) = ''a''" using b[rule_format, of 0] by (simp add: example_defs)
  moreover have "BaseDir (h (res ! 1)) = ''a''" using b[rule_format, of 1] by (simp add: example_defs)
  moreover have "BaseDir (h (res ! 2)) = ''b''" using b[rule_format, of 2] by (simp add: example_defs)
  moreover have "BaseDir (h (res ! 3)) = ''c''" using b[rule_format, of 3] by (simp add: example_defs)
  ultimately have m: "map (\<lambda>a. BaseDir (h a)) res = [''a'', ''a'', ''b'', ''c'']"
    using res by simp
  from r res m show ?thesis by (intro exI conjI) assumption+
qed

text \<open>
  C3 as the spec words it fails: two files of the directory \<^verbatim>\<open>a\<close> put the bundle of
  \<^verbatim>\<open>a\<close> into the list twice.
\<close>

theorem result_entry_per_file_counterexample:
  "(case GetReferencedAssets (example_env True example_files) [''a/x.go'', ''a/y.go''] of
      Inl parse_err \<Rightarrow> False
    | Inr r \<Rightarrow> fst r = [0, 0] \<and> \<not> distinct (fst r) \<and> map BaseDir (bundles r) = [''a'', ''a''])"
  by (simp add: scan_defs example_defs)

text \<open>
  C4 (as the code has it). The \<open>Caller\<close> of a bundle is the first file of its directory in
  the input, and no later file changes it. The \<open>PackageName\<close> of a bundle is the package
  name of the last file of its directory in the input: every file sets it again when its
  root is visited.
\<close>

theorem Caller_first_PackageName_last:
  assumes "GetReferencedAssets e filenames = Inr (res, h)" and "i < length filenames"
  shows "\<exists>first last.
           find (\<lambda>f. filepath_Dir e f = filepath_Dir e (filenames ! i)) filenames = Some first \<and>
           find (\<lambda>f. filepath_Dir e f = filepath_Dir e (filenames ! i)) (rev filenames) = Some last \<and>
           Caller (h (res ! i)) = first \<and>
           PackageName (h (res ! i)) = package_name e last"
proof -
  let ?d = "filepath_Dir e (filenames ! i)"
  from scan_result[OF assms(1)] obtain am where A:
    "res = map (\<lambda>f. the (am (filepath_Dir e f))) filenames \<and>
     dom am = filepath_Dir e ` set filenames \<and>
     (\<forall>d a. am d = Some a \<longrightarrow> BaseDir (h a) = d) \<and>
     (\<forall>d a. am d = Some a \<longrightarrow>
        Caller (h a) = the (find (\<lambda>f. filepath_Dir e f = d) filenames)) \<and>
     (\<forall>d a. am d = Some a \<longrightarrow>
        PackageName (h a) =
          (case find (\<lambda>f. filepath_Dir e f = d) (rev filenames) of
             Some g \<Rightarrow> package_name e g
           | None \<Rightarrow> []))"
    by (rule exE)
  note res = A[THEN conjunct1]
  note dm = A[THEN conjunct2, THEN conjunct1]
  note ca = A[THEN conjunct2, THEN conjunct2, THEN conjunct2, THEN conjunct1, rule_format]
  note pk = A[THEN conjunct2, THEN conjunct2, THEN conjunct2, THEN conjunct2, rule_format]
  from assms(2) have "?d \<in> dom am" using dm by simp
  then obtain a where a: "am ?d = Some a" by (auto simp: dom_def)
  with res assms(2) have ri: "res ! i = a" by simp
  from assms(2) have mem: "filenames ! i \<in> set filenames" by simp
  then have "find (\<lambda>f. filepath_Dir e f = ?d) filenames \<noteq> None"
    by (auto simp: find_None_iff)
  then obtain first where first: "find (\<lambda>f. filepath_Dir e f = ?d) filenames = Some first" by auto
  from mem have "find (\<lambda>f. filepath_Dir e f = ?d) (rev filenames) \<noteq> None"
    by (auto simp: find_None_iff)
  then obtain last where last: "find (\<lambda>f. filepath_Dir e f = ?d) (rev filenames) = Some last" by auto
  have "Caller (h (res ! i)) = first" using ca[OF a] first ri by simp
  moreover have "PackageName (h (res ! i)) = package_name e last" using pk[OF a] last ri by simp
  ultimately show ?thesis using first last by simp
qed

theorem Caller_first_PackageName_last_witness:
  "\<exists>res h. GetReferencedAssets (example_env True example_files)
              [''a/x.go'', ''a/y.go'', ''b/z.go''] = Inr (res, h) \<and>
           Caller (h (res ! 0)) = ''a/x.go'' \<and> PackageName (h (res ! 0)) = ''main_test''"
proof -
  let ?e = "example_env True example_files"
  let ?fs = "[''a/x.go'', ''a/y.go'', ''b/z.go'']"
  have "\<not> isl (GetReferencedAssets ?e ?fs)"
    by (simp add: scan_defs example_defs)
  then obtain res h where r: "GetReferencedAssets ?e ?fs = Inr (res, h)"
    by (cases "GetReferencedAssets ?e ?fs") auto
  have i: "0 < length ?fs" by simp
  from Caller_first_PackageName_last[OF r i] obtain first last where
    f: "find (\<lambda>f. filepath_Dir ?e f = filepath_Dir ?e (?fs ! 0)) ?fs = Some first" and
    l: "find (\<lambda>f. filepath_Dir ?e f = filepath_Dir ?e (?fs ! 0)) (rev ?fs) = Some last" and
    c: "Caller (h (res ! 0)) = first" and
    p: "PackageName (h (res ! 0)) = package_name ?e last"
    by (elim exE conjE)
  from f have "first = ''a/x.go''" by (simp add: example_defs)
  moreover from l have "last = ''a/y.go''" by (simp add: example_defs)
  moreover have "package_name ?e ''a/y.go'' = ''main_test''" by (simp add: package_name_def example_defs)
  ultimately have "Caller (h (res ! 0)) = ''a/x.go''" "PackageName (h (res ! 0)) = ''main_test''"
    using c p by simp_all
  with r show ?thesis by (intro exI conjI) assumption+
qed

text \<open>
  C4 as the spec words it fails: after \<^verbatim>\<open>a/x.go\<close> alone the bundle of \<^verbatim>\<open>a\<close> has the
  package name \<^verbatim>\<open>main\<close>; processing \<^verbatim>\<open>a/y.go\<close> of the same directory changes it to
  \<^verbatim>\<open>main_test\<close>. The \<open>Caller\<close> stays \<^verbatim>\<open>a/x.go\<close>.
\<close>

theorem Caller_PackageName_counterexample:
  "(case GetReferencedAssets (example_env True example_files) [''a/x.go''] of
      Inl parse_err \<Rightarrow> False
    | Inr r \<Rightarrow> map PackageName (bundles r) = [''main'']) \<and>
   (case GetReferencedAssets (example_env True example_files) [''a/x.go'', ''a/y.go''] of
      Inl parse_err \<Rightarrow> False
    | Inr r \<Rightarrow> map PackageName (bundles r) = [''main_test'', ''main_test''] \<and>
              map Caller (bundles r) = [''a/x.go'', ''a/x.go''])"
  by (simp add: scan_defs example_defs)

subsection \<open>Assets of a bundle\<close>

lemma HasAsset_range_iff: "HasAsset_range xs name = (name \<in> ReferencedAsset.Name ` set xs)"
  by (induction xs) auto

lemma HasAsset_iff: "HasAsset r name = (name \<in> ReferencedAsset.Name ` set (Assets r))"
  by (simp add: HasAsset_def HasAsset_range_iff)

text \<open>
  C1 does not hold of the code. \<open>HasAsset\<close> tells whether a name "has already been
  processed" for a bundle, but the scan never calls it: both places that append an asset
  append it unchecked. \<^verbatim>\<open>a/x.go\<close> declares \<^verbatim>\<open>x.txt\<close> twice, with \<^verbatim>\<open>mewn.String\<close> and with
  \<^verbatim>\<open>mewn.MustString\<close>, and the bundle of \<^verbatim>\<open>a\<close> ends with two assets of that name.
\<close>

theorem duplicate_asset_is_appended:
  "(case GetReferencedAssets (example_env True example_files) [''a/x.go''] of
      Inl parse_err \<Rightarrow> False
    | Inr r \<Rightarrow> map (\<lambda>bundle. map ReferencedAsset.Name (Assets bundle)) (bundles r)
                = [[''x.txt'', ''x.txt'']])"
  by (simp add: scan_defs example_defs)

subsection \<open>Unknown methods\<close>

text \<open>The only error the scan ever returns is a parse error.\<close>

lemma only_parse_errors:
  assumes "GetReferencedAssets e fs = Inl x"
  shows "\<exists>f\<in>set fs. parser_ParseFile e f = Inl x"
proof (cases "find (\<lambda>f. isl (parser_ParseFile e f)) fs")
  case None
  from files_loop_all_parsed[OF None, of scan_init] assms show ?thesis
    by (auto simp: GetReferencedAssets_def)
next
  case (Some g)
  then have g: "g \<in> set fs" "isl (parser_ParseFile e g)" by (auto simp: find_Some_iff)
  from files_loop_parse_error[OF Some, of scan_init] assms
  have "x = projl (parser_ParseFile e g)" by (simp add: GetReferencedAssets_def)
  with g show ?thesis by (cases "parser_ParseFile e g") auto
qed

text \<open>
  C2 does not hold of the code. For a call of an unknown method on \<^verbatim>\<open>mewn\<close> the closure
  stores the error \<^verbatim>\<open>unknown call to mewn.Unknown\<close> in \<^verbatim>\<open>err\<close> and returns false, which
  only keeps \<^verbatim>\<open>ast.Inspect\<close> out of the statement's children. Nothing reads \<^verbatim>\<open>err\<close>
  afterwards: the bundle is appended to the result and the scan returns it with a nil
  error.
\<close>

theorem unknown_method_error_is_dropped:
  "(case GetReferencedAssets (example_env True example_files) [''d/bad.go''] of
      Inl scan_err \<Rightarrow> False
    | Inr r \<Rightarrow> fst r = [0] \<and> map Assets (bundles r) = [[]] \<and> map Groups (bundles r) = [[]]) \<and>
   (case files_loop (example_env True example_files) [''d/bad.go''] scan_init of
      Inl scan_err \<Rightarrow> False
    | Inr s \<Rightarrow> err s = Some (Error ''unknown call to mewn.Unknown''))"
  by (simp add: scan_defs example_defs)

subsection \<open>Calls on a group\<close>

text \<open>
  C6 (as the code has it). Take a scan and a call \<^verbatim>\<open>g.Method("x")\<close> on a receiver other
  than \<^verbatim>\<open>mewn\<close> that the walk processes: \<open>pre\<close> are the statements processed before it, in
  this file and the files before, and \<open>post\<close> those processed after it. In the bundle of
  the call's directory the assets are those of \<open>pre\<close>, then the asset of the call, then
  those of \<open>post\<close>. If \<open>pre\<close> holds a declaration of \<open>g\<close> whose path resolved, the asset
  of the call is exactly one asset named \<open>x\<close>, owned by the group of the last such
  declaration; if \<open>pre\<close> holds none, the call adds nothing. The bundles of the other
  directories get nothing from the call. A call that stands inside an assignment for
  which the closure returns false is not processed at all.
\<close>

theorem group_item_call_in_scan:
  assumes "GetReferencedAssets e filenames = Inr (res, h)"
    and "scan_trace e filenames = pre @ (f, t) # post"
    and "Obj (RHS t) \<noteq> ''mewn''"
  shows "(\<forall>i<length filenames.
            filepath_Dir e (filenames ! i) = filepath_Dir e f \<longrightarrow>
            Assets (h (res ! i)) =
              trace_assets e pre Map.empty (filepath_Dir e f) @
              (case find (\<lambda>(f', t'). LHS t' = Obj (RHS t) \<and> declares_group e f' t' \<noteq> None)
                         (rev pre) of
                 Some (f', t') \<Rightarrow>
                   [\<lparr>ReferencedAsset.Name = Path (RHS t), AssetPath = Path (RHS t),
                     Group = declares_group e f' t'\<rparr>]
               | None \<Rightarrow> []) @
              trace_assets e post (trace_table e pre Map.empty) (filepath_Dir e f)) \<and>
         (\<forall>j<length filenames.
            filepath_Dir e (filenames ! j) \<noteq> filepath_Dir e f \<longrightarrow>
            Assets (h (res ! j)) =
              trace_assets e pre Map.empty (filepath_Dir e (filenames ! j)) @
              trace_assets e post (trace_table e pre Map.empty) (filepath_Dir e (filenames ! j))) \<and>
         f \<in> set filenames"
proof -
  let ?g = "Obj (RHS t)"
  let ?tbl = "trace_table e pre Map.empty"
  have tb: "trace_table e (pre @ [(f, t)]) Map.empty = ?tbl"
    by (simp add: trace_table_append item_call_declares_no_group[OF assms(3)])
  have look: "?tbl ?g =
     (case find (\<lambda>(f', t'). LHS t' = ?g \<and> declares_group e f' t' \<noteq> None) (rev pre) of
        Some (f', t') \<Rightarrow> declares_group e f' t'
      | None \<Rightarrow> None)"
    by (simp add: trace_table_lookup)
  have mid: "(case declares_asset ?tbl t of Some asset \<Rightarrow> [asset] | None \<Rightarrow> []) =
     (case find (\<lambda>(f', t'). LHS t' = ?g \<and> declares_group e f' t' \<noteq> None) (rev pre) of
        Some (f', t') \<Rightarrow>
          [\<lparr>ReferencedAsset.Name = Path (RHS t), AssetPath = Path (RHS t),
            Group = declares_group e f' t'\<rparr>]
      | None \<Rightarrow> [])"
  proof (cases "find (\<lambda>(f', t'). LHS t' = ?g \<and> declares_group e f' t' \<noteq> None) (rev pre)")
    case None
    with look show ?thesis by (simp add: item_call_asset[OF assms(3)])
  next
    case (Some x)
    obtain f' t' where x: "x = (f', t')" by (cases x)
    from Some x have "declares_group e f' t' \<noteq> None" by (auto simp: find_Some_iff)
    then obtain G where G: "declares_group e f' t' = Some G" by auto
    with look Some x show ?thesis by (simp add: item_call_asset[OF assms(3)])
  qed
  have A: "Assets (h (res ! i)) =
             trace_assets e (pre @ (f, t) # post) Map.empty (filepath_Dir e (filenames ! i))"
    if "i < length filenames" for i
    using scan_contents(1)[OF assms(1) that] assms(2) by simp
  show ?thesis
  proof (intro conjI allI impI)
    fix i assume i: "i < length filenames"
      and d: "filepath_Dir e (filenames ! i) = filepath_Dir e f"
    show "Assets (h (res ! i)) =
              trace_assets e pre Map.empty (filepath_Dir e f) @
              (case find (\<lambda>(f', t'). LHS t' = ?g \<and> declares_group e f' t' \<noteq> None) (rev pre) of
                 Some (f', t') \<Rightarrow>
                   [\<lparr>ReferencedAsset.Name = Path (RHS t), AssetPath = Path (RHS t),
                     Group = declares_group e f' t'\<rparr>]
               | None \<Rightarrow> []) @
              trace_assets e post ?tbl (filepath_Dir e f)"
      unfolding A[OF i] d trace_assets_split tb mid[symmetric] by simp
  next
    fix j assume j: "j < length filenames"
      and d: "filepath_Dir e (filenames ! j) \<noteq> filepath_Dir e f"
    from d have d': "filepath_Dir e f \<noteq> filepath_Dir e (filenames ! j)" by simp
    show "Assets (h (res ! j)) =
              trace_assets e pre Map.empty (filepath_Dir e (filenames ! j)) @
              trace_assets e post ?tbl (filepath_Dir e (filenames ! j))"
      unfolding A[OF j] trace_assets_split tb using d' by simp
  next
    show "f \<in> set filenames"
      by (rule scan_trace_file[of f t e]) (simp add: assms(2))
  qed
qed

text \<open>
  The scan of \<^verbatim>\<open>a/y.go\<close> and \<^verbatim>\<open>b/z.go\<close>, at the call \<^verbatim>\<open>v := g.Bytes("1.bin")\<close> of the
  second file: \<open>g\<close> was registered in the first file.
\<close>

theorem group_item_call_in_scan_witness:
  "\<exists>res h. GetReferencedAssets (example_env True example_files) [''a/y.go'', ''b/z.go'']
              = Inr (res, h) \<and>
           Assets (h (res ! 1)) =
             [\<lparr>ReferencedAsset.Name = ''1.bin'', AssetPath = ''1.bin'',
               Group = Some \<lparr>Group.Name = ''g'', LocalPath = ''assets'',
                             FullPath = ''/src/a/assets''\<rparr>\<rparr>,
              \<lparr>ReferencedAsset.Name = ''2.bin'', AssetPath = ''2.bin'',
               Group = Some \<lparr>Group.Name = ''g'', LocalPath = ''static'',
                             FullPath = ''/src/b/static''\<rparr>\<rparr>] \<and>
           Assets (h (res ! 0)) =
             [\<lparr>ReferencedAsset.Name = ''y.txt'', AssetPath = ''y.txt'',
               Group = Some \<lparr>Group.Name = ''g'', LocalPath = ''assets'',
                             FullPath = ''/src/a/assets''\<rparr>\<rparr>]"
proof -
  let ?e = "example_env True example_files"
  let ?fs = "[''a/y.go'', ''b/z.go'']"
  let ?pre = "[(''a/y.go'', \<lparr>LHS = ''g'', RHS = \<lparr>Obj = ''mewn'', Method = ''Group'', Path = ''assets''\<rparr>\<rparr>),
               (''a/y.go'', \<lparr>LHS = ''u'', RHS = \<lparr>Obj = ''g'', Method = ''String'', Path = ''y.txt''\<rparr>\<rparr>)]"
  let ?t = "\<lparr>LHS = ''v'', RHS = \<lparr>Obj = ''g'', Method = ''Bytes'', Path = ''1.bin''\<rparr>\<rparr>"
  let ?post = "[(''b/z.go'', \<lparr>LHS = ''bad'', RHS = \<lparr>Obj = ''mewn'', Method = ''Unknown'', Path = ''x''\<rparr>\<rparr>),
                (''b/z.go'', \<lparr>LHS = ''g'', RHS = \<lparr>Obj = ''mewn'', Method = ''Group'', Path = ''static''\<rparr>\<rparr>),
                (''b/z.go'', \<lparr>LHS = ''v'', RHS = \<lparr>Obj = ''g'', Method = ''Bytes'', Path = ''2.bin''\<rparr>\<rparr>)]"
  have "\<not> isl (GetReferencedAssets ?e ?fs)"
    by (simp add: scan_defs example_defs)
  then obtain res h where r: "GetReferencedAssets ?e ?fs = Inr (res, h)"
    by (cases "GetReferencedAssets ?e ?fs") auto
  have tr: "scan_trace ?e ?fs = ?pre @ (''b/z.go'', ?t) # ?post"
    by (simp add: trace_defs example_defs)
  have ne: "Obj (RHS ?t) \<noteq> ''mewn''" by simp
  note T = group_item_call_in_scan[OF r tr ne]
  from T[THEN conjunct1, rule_format, of 1]
  have A: "Assets (h (res ! 1)) =
             [\<lparr>ReferencedAsset.Name = ''1.bin'', AssetPath = ''1.bin'',
               Group = Some \<lparr>Group.Name = ''g'', LocalPath = ''assets'',
                             FullPath = ''/src/a/assets''\<rparr>\<rparr>,
              \<lparr>ReferencedAsset.Name = ''2.bin'', AssetPath = ''2.bin'',
               Group = Some \<lparr>Group.Name = ''g'', LocalPath = ''static'',
                             FullPath = ''/src/b/static''\<rparr>\<rparr>]"
    by (simp add: declares_group_def declares_asset_def example_env_def example_Dir_def)
  from T[THEN conjunct2, THEN conjunct1, rule_format, of 0]
  have B: "Assets (h (res ! 0)) =
             [\<lparr>ReferencedAsset.Name = ''y.txt'', AssetPath = ''y.txt'',
               Group = Some \<lparr>Group.Name = ''g'', LocalPath = ''assets'',
                             FullPath = ''/src/a/assets''\<rparr>\<rparr>]"
    by (simp add: declares_group_def declares_asset_def example_env_def example_Dir_def)
  from r A B show ?thesis by (intro exI conjI) assumption+
qed

text \<open>
  C6 as the spec words it fails. \<open>g\<close> is registered by \<^verbatim>\<open>/abs/q.go\<close>; in \<^verbatim>\<open>n/nest.go\<close> the
  call \<^verbatim>\<open>v := g.String("inner.txt")\<close> stands inside the left-hand side of a group
  declaration. Without a working directory the path of that declaration does not
  resolve, the walk skips the statement's children, and the call yields no asset. With
  a working directory the same call yields one.
\<close>

theorem group_item_call_counterexample:
  "(case GetReferencedAssets (example_env False example_files) [''/abs/q.go'', ''n/nest.go''] of
      Inl parse_err \<Rightarrow> False
    | Inr r \<Rightarrow> map (\<lambda>bundle. map Group.Name (Groups bundle)) (bundles r) = [[''g''], []] \<and>
              map Assets (bundles r) = [[], []]) \<and>
   (case GetReferencedAssets (example_env True example_files) [''/abs/q.go'', ''n/nest.go''] of
      Inl parse_err \<Rightarrow> False
    | Inr r \<Rightarrow> map (\<lambda>bundle. map ReferencedAsset.Name (Assets bundle)) (bundles r)
                = [[], [''inner.txt'']])"
  by (simp add: scan_defs example_defs)


text \<open>Order matters: the same two statements, item call last and item call first.\<close>

lemma group_item_order_examples:
  "(case GetReferencedAssets (example_env True example_files) [''a/y.go''] of
      Inl parse_err \<Rightarrow> False
    | Inr r \<Rightarrow> map (\<lambda>bundle. map ReferencedAsset.Name (Assets bundle)) (bundles r) = [[''y.txt'']]) \<and>
   (case GetReferencedAssets (example_env True example_files) [''c/w.go''] of
      Inl parse_err \<Rightarrow> False
    | Inr r \<Rightarrow> map Assets (bundles r) = [[]] \<and>
              map (\<lambda>bundle. map Group.Name (Groups bundle)) (bundles r) = [[''h'']])"
  by (simp add: scan_defs example_defs)

subsection \<open>Declaring a group twice\<close>




text \<open>
  The whole scan of \<^verbatim>\<open>a/y.go\<close> and \<^verbatim>\<open>b/z.go\<close>: both groups stay in their bundles, the
  call before the second declaration gets the first group and the call after it the
  second.
\<close>

lemma group_redeclaration_example:
  "(case GetReferencedAssets (example_env True example_files) [''a/y.go'', ''b/z.go''] of
      Inl parse_err \<Rightarrow> False
    | Inr r \<Rightarrow>
        map Groups (bundles r) =
          [[\<lparr>Group.Name = ''g'', LocalPath = ''assets'', FullPath = ''/src/a/assets''\<rparr>],
           [\<lparr>Group.Name = ''g'', LocalPath = ''static'', FullPath = ''/src/b/static''\<rparr>]] \<and>
        map (\<lambda>bundle. map (\<lambda>asset. (ReferencedAsset.Name asset, map_option LocalPath (Group asset)))
                         (Assets bundle)) (bundles r) =
          [[(''y.txt'', Some ''assets'')],
           [(''1.bin'', Some ''assets''), (''2.bin'', Some ''static'')]])"
  by (simp add: scan_defs example_defs)

subsection \<open>A group whose path does not resolve\<close>





end
